theory Spec2Isabelle
  imports Main "HOL-Library.Word" "HOL-Library.Sublist"
begin

unbundle bit_operations_syntax

section \<open>Strings, bytes and the library functions the connection code calls\<close>

text \<open>
  A Go \<^verbatim>\<open>string\<close> is a sequence of bytes; it is modelled as \<^typ>\<open>string\<close>, whose
  characters are 8-bit. A \<^verbatim>\<open>[]byte\<close> is a list of 8-bit words, and the conversion
  \<^verbatim>\<open>string(p)\<close> keeps every byte.
\<close>

type_synonym bytes = "8 word list"

definition string_of_bytes :: "bytes \<Rightarrow> string" where
  "string_of_bytes p = map (\<lambda>b. char_of (unat b)) p"

text \<open>
  \<^verbatim>\<open>strings.HasPrefix\<close>, \<^verbatim>\<open>strings.TrimSpace\<close> and \<^verbatim>\<open>strings.ToUpper\<close> of the Go
  standard library. \<open>TrimSpace\<close> and \<open>ToUpper\<close> are modelled on bytes below 0x80: the six
  ASCII white-space bytes are trimmed and the letters a to z are shifted by
  \<^verbatim>\<open>'a' - 'A'\<close>; a byte from 0x80 on is neither white space nor changed.
\<close>

definition HasPrefix :: "string \<Rightarrow> string \<Rightarrow> bool" where
  "HasPrefix s pre = (length pre \<le> length s \<and> take (length pre) s = pre)"

definition isSpace :: "char \<Rightarrow> bool" where
  "isSpace c = (c = CHR 0x09 \<or> c = CHR 0x0A \<or> c = CHR 0x0B \<or> c = CHR 0x0C \<or> c = CHR 0x0D \<or> c = CHR '' '')"

definition TrimLeft :: "string \<Rightarrow> string" where
  "TrimLeft s = dropWhile isSpace s"

definition TrimRight :: "string \<Rightarrow> string" where
  "TrimRight s = rev (dropWhile isSpace (rev s))"

definition TrimSpace :: "string \<Rightarrow> string" where
  "TrimSpace s = TrimRight (TrimLeft s)"

definition upperByte :: "char \<Rightarrow> char" where
  "upperByte c =
     (if (97::nat) \<le> of_char c \<and> of_char c \<le> (122::nat)
      then char_of (of_char c - (32::nat)) else c)"

definition ToUpper :: "string \<Rightarrow> string" where
  "ToUpper s = map upperByte s"

text \<open>
  \<^verbatim>\<open>strconv.FormatUint(n, 10)\<close>: the decimal digits of \<open>n\<close>, most significant first,
  with no leading zero (and \<open>0\<close> for zero).
\<close>

fun formatDecimal :: "nat \<Rightarrow> string" where
  "formatDecimal n =
     (if n < 10 then [''0123456789'' ! n]
      else formatDecimal (n div 10) @ [''0123456789'' ! (n mod 10)])"

declare formatDecimal.simps [simp del]

definition FormatUint :: "64 word \<Rightarrow> string" where
  "FormatUint w = formatDecimal (unat w)"

text \<open>
  \<^verbatim>\<open>uuid.New().String()\<close> of github.com/google/uuid: sixteen random bytes, the version
  nibble set to 4 and the variant bits to binary 10, printed as lower-case hexadecimal in
  the groups 8-4-4-4-12. The sixteen random bytes are an input of the model, given as
  one 128-bit word whose most significant byte is byte 0.
\<close>

type_synonym rand = "128 word"

definition rand_bytes :: "rand \<Rightarrow> bytes" where
  "rand_bytes r = map (\<lambda>i. ucast (drop_bit (8 * (15 - i)) r)) [0..<16]"

definition uuid_New :: "rand \<Rightarrow> bytes" where
  "uuid_New r =
     (let u = rand_bytes r;
          u = u[6 := ((u ! 6) AND 0x0f) OR 0x40];
          u = u[8 := ((u ! 8) AND 0x3f) OR 0x80]
      in u)"

definition hexByte :: "8 word \<Rightarrow> string" where
  "hexByte b = [''0123456789abcdef'' ! unat (drop_bit 4 b), ''0123456789abcdef'' ! unat (b AND 0x0f)]"

definition encodeHex :: "bytes \<Rightarrow> string" where
  "encodeHex bs = concat (map hexByte bs)"

definition uuid_String :: "bytes \<Rightarrow> string" where
  "uuid_String u =
     encodeHex (take 4 u) @ ''-'' @ encodeHex (take 2 (drop 4 u)) @ ''-'' @
     encodeHex (take 2 (drop 6 u)) @ ''-'' @ encodeHex (take 2 (drop 8 u)) @ ''-'' @
     encodeHex (drop 10 u)"

section \<open>Events and the outbound channel\<close>

text \<open>
  Modelled from the spec: the enum \<^verbatim>\<open>proxy.Op\<close> and the struct \<^verbatim>\<open>proxy.Event\<close> are
  declared in package \<^verbatim>\<open>proxy\<close>, which is not among the sources. The variants and the
  fields are those of the data model of the specification (section 3), under the names
  the connection code and the tests use. A field the connection code does not set keeps
  its zero value; \<open>Args\<close> is the empty list then.
\<close>

datatype Op = OpQuery | OpExecute | OpBegin | OpCommit | OpRollback

type_synonym Time = int

record Event =
  ID :: string
  Op :: Op
  Query :: string
  Args :: "string list"
  StartTime :: Time
  TxID :: string

text \<open>
  The buffered channel \<^verbatim>\<open>events\<close>: its queue and its capacity. The channel is shared by
  every connection and its reader, so it is a state of its own, passed beside the
  connection state.
\<close>

record chan =
  buf :: "Event list"
  cap :: nat

section \<open>The per-connection state\<close>

text \<open>
  The fields of \<^verbatim>\<open>conn\<close> that the capture hooks read and write. The sockets and the
  decoders are handles and are modelled with the startup relay below.
\<close>

record conn =
  preparedStmts :: "string \<rightharpoonup> string"
  lastParse :: string
  lastBindArgs :: "string list"
  lastBindStmt :: string
  executeStart :: Time
  activeTxID :: string
  nextID :: "64 word"

definition newConn :: conn where
  "newConn = \<lparr>preparedStmts = Map.empty, lastParse = [], lastBindArgs = [], lastBindStmt = [],
     executeStart = 0, activeTxID = [], nextID = 0\<rparr>"

definition generateID :: "conn \<Rightarrow> string \<times> conn" where
  "generateID c = (let c = c\<lparr>nextID := nextID c + 1\<rparr> in (FormatUint (nextID c), c))"

section \<open>Messages\<close>

text \<open>
  The frontend messages the capture hook distinguishes, with the fields it reads:
  \<open>Query.String\<close>; \<open>Parse.Name\<close> and \<open>Parse.Query\<close>; \<open>Bind.PreparedStatement\<close> and
  \<open>Bind.Parameters\<close>; \<open>Execute\<close>. Every other frontend message is \<open>OtherFrontend\<close>.
\<close>

datatype FrontendMessage =
  QueryMsg string
| ParseMsg string string
| BindMsg string "bytes list"
| ExecuteMsg
| OtherFrontend

text \<open>
  The backend messages: \<open>ReadyForQuery\<close> with its status byte, \<open>ErrorResponse\<close> with its
  body, \<open>CommandComplete\<close> with its command tag, and every other message with its body.
\<close>

datatype BackendMessage =
  ReadyForQuery "8 word"
| ErrorResponse bytes
| CommandComplete bytes
| OtherBackend bytes

section \<open>Transaction detection and event emission\<close>

definition detectTx :: "string \<Rightarrow> rand \<Rightarrow> conn \<Rightarrow> conn" where
  "detectTx query r c =
     (let upper = ToUpper (TrimSpace query) in
      if HasPrefix upper ''BEGIN'' then c\<lparr>activeTxID := uuid_String (uuid_New r)\<rparr>
      else if HasPrefix upper ''COMMIT'' \<or> HasPrefix upper ''ROLLBACK'' then c\<lparr>activeTxID := []\<rparr>
      else c)"

text \<open>
  \<^verbatim>\<open>emitEvent\<close>: a \<^verbatim>\<open>select\<close> with a send case and a \<^verbatim>\<open>default\<close> case. The send is
  taken when the buffer has room, the default case otherwise. The capacity is positive
  (256 in \<^verbatim>\<open>New\<close>), so a waiting reader means an empty buffer, which has room.
\<close>

definition emitEvent :: "Event \<Rightarrow> conn \<Rightarrow> chan \<Rightarrow> conn \<times> chan" where
  "emitEvent ev c ch =
     (if length (buf ch) < cap ch then (c, ch\<lparr>buf := buf ch @ [ev]\<rparr>) else (c, ch))"

section \<open>The capture hooks\<close>

text \<open>
  \<^verbatim>\<open>handleSimpleQuery\<close> up to its call of \<^verbatim>\<open>emitEvent\<close>: the event it builds and the
  state it leaves. The clock reading \<open>now\<close> and the random bytes \<open>r\<close> are inputs.
\<close>

definition simpleQueryEvent :: "string \<Rightarrow> Time \<Rightarrow> rand \<Rightarrow> conn \<Rightarrow> Event \<times> conn" where
  "simpleQueryEvent q now r c =
     (let c = detectTx q r c;
          (eid, c) = generateID c;
          ev = \<lparr>ID = eid, Op = OpQuery, Query = q, Args = [], StartTime = now, TxID = activeTxID c\<rparr>
      in (ev, c))"

definition handleSimpleQuery :: "string \<Rightarrow> Time \<Rightarrow> rand \<Rightarrow> conn \<Rightarrow> chan \<Rightarrow> conn \<times> chan" where
  "handleSimpleQuery q now r c ch = (case simpleQueryEvent q now r c of (ev, c) \<Rightarrow> emitEvent ev c ch)"

definition handleParse :: "string \<Rightarrow> string \<Rightarrow> conn \<Rightarrow> conn" where
  "handleParse name query c =
     (let c = c\<lparr>lastParse := query\<rparr> in
      if name \<noteq> [] then c\<lparr>preparedStmts := (preparedStmts c)(name \<mapsto> query)\<rparr> else c)"

text \<open>The loop of \<^verbatim>\<open>handleBind\<close>: parameter \<open>i\<close> is written at index \<open>i\<close>.\<close>

fun bindArgs :: "nat \<Rightarrow> bytes list \<Rightarrow> string list \<Rightarrow> string list" where
  "bindArgs i [] args = args"
| "bindArgs i (p # ps) args = bindArgs (Suc i) ps (args[i := string_of_bytes p])"

definition handleBind :: "string \<Rightarrow> bytes list \<Rightarrow> conn \<Rightarrow> conn" where
  "handleBind stmt params c =
     (let c = c\<lparr>lastBindStmt := stmt\<rparr>;
          c = c\<lparr>lastBindArgs := replicate (length params) []\<rparr>
      in c\<lparr>lastBindArgs := bindArgs 0 params (lastBindArgs c)\<rparr>)"

text \<open>\<^verbatim>\<open>handleExecute\<close> up to its call of \<^verbatim>\<open>emitEvent\<close>.\<close>

definition executeEvent :: "Time \<Rightarrow> rand \<Rightarrow> conn \<Rightarrow> Event \<times> conn" where
  "executeEvent now r c =
     (let q = lastParse c;
          q = (if lastBindStmt c \<noteq> []
               then (case preparedStmts c (lastBindStmt c) of Some stored \<Rightarrow> stored | None \<Rightarrow> q)
               else q);
          c = detectTx q r c;
          c = c\<lparr>executeStart := now\<rparr>;
          (eid, c) = generateID c;
          ev = \<lparr>ID = eid, Op = OpExecute, Query = q, Args = lastBindArgs c,
                StartTime = executeStart c, TxID = activeTxID c\<rparr>
      in (ev, c))"

definition handleExecute :: "Time \<Rightarrow> rand \<Rightarrow> conn \<Rightarrow> chan \<Rightarrow> conn \<times> chan" where
  "handleExecute now r c ch = (case executeEvent now r c of (ev, c) \<Rightarrow> emitEvent ev c ch)"

fun captureClientMsg :: "FrontendMessage \<Rightarrow> Time \<Rightarrow> rand \<Rightarrow> conn \<Rightarrow> chan \<Rightarrow> conn \<times> chan" where
  "captureClientMsg (QueryMsg q) now r c ch = handleSimpleQuery q now r c ch"
| "captureClientMsg (ParseMsg name query) now r c ch = (handleParse name query c, ch)"
| "captureClientMsg (BindMsg stmt params) now r c ch = (handleBind stmt params c, ch)"
| "captureClientMsg ExecuteMsg now r c ch = handleExecute now r c ch"
| "captureClientMsg OtherFrontend now r c ch = (c, ch)"

section \<open>The upstream hooks and the row count of a command tag\<close>

text \<open>
  \<^verbatim>\<open>strings.Split(tag, " ")\<close>: the pieces between the spaces, in order. There is one
  piece more than there are spaces, so the result is never empty.
\<close>

fun SplitSpace :: "string \<Rightarrow> string list" where
  "SplitSpace [] = [[]]"
| "SplitSpace (c # cs) =
     (if c = CHR '' '' then [] # SplitSpace cs
      else (case SplitSpace cs of [] \<Rightarrow> [[c]] | p # ps \<Rightarrow> (c # p) # ps))"

text \<open>
  \<^verbatim>\<open>strconv.ParseUint(s, 10, 64)\<close> and \<^verbatim>\<open>strconv.ParseInt(s, 10, 64)\<close> of the Go standard
  library, with the value they return beside the error. The accumulator is a 64-bit
  word, a byte an 8-bit word, and an \<^verbatim>\<open>int64\<close> result is a 64-bit word read by \<open>sint\<close>.
\<close>

datatype NumError = ErrSyntax | ErrRange

definition lower :: "8 word \<Rightarrow> 8 word" where
  "lower c = c OR 0x20"

definition uintCutoff :: "64 word" where
  "uintCutoff = 0xFFFFFFFFFFFFFFFF div 10 + 1"

definition maxVal :: "64 word" where
  "maxVal = 0xFFFFFFFFFFFFFFFF"

fun parseUintLoop :: "string \<Rightarrow> 64 word \<Rightarrow> 64 word \<times> NumError option" where
  "parseUintLoop [] n = (n, None)"
| "parseUintLoop (ch # cs) n =
     (let c = (of_char ch :: 8 word) in
      if 0x30 \<le> c \<and> c \<le> 0x39 then
        (let d = c - 0x30 in
         if 10 \<le> d then (0, Some ErrSyntax)
         else if uintCutoff \<le> n then (maxVal, Some ErrRange)
         else (let n = n * 10; n1 = n + ucast d in
               if n1 < n \<or> maxVal < n1 then (maxVal, Some ErrRange)
               else parseUintLoop cs n1))
      else if 0x61 \<le> lower c \<and> lower c \<le> 0x7A then
        (let d = lower c - 0x61 + 10 in
         if 10 \<le> d then (0, Some ErrSyntax)
         else if uintCutoff \<le> n then (maxVal, Some ErrRange)
         else (let n = n * 10; n1 = n + ucast d in
               if n1 < n \<or> maxVal < n1 then (maxVal, Some ErrRange)
               else parseUintLoop cs n1))
      else (0, Some ErrSyntax))"

definition ParseUint :: "string \<Rightarrow> 64 word \<times> NumError option" where
  "ParseUint s = (if s = [] then (0, Some ErrSyntax) else parseUintLoop s 0)"

definition ParseInt :: "string \<Rightarrow> 64 word \<times> NumError option" where
  "ParseInt s0 =
     (if s0 = [] then (0, Some ErrSyntax)
      else
        (let neg = (hd s0 = CHR ''-'');
             s = (if hd s0 = CHR ''+'' \<or> hd s0 = CHR ''-'' then tl s0 else s0);
             (un, err) = ParseUint s
         in if err \<noteq> None \<and> err \<noteq> Some ErrRange then (0, err)
            else
              (let cutoff = (push_bit 63 1 :: 64 word) in
               if \<not> neg \<and> cutoff \<le> un then (cutoff - 1, Some ErrRange)
               else if neg \<and> cutoff < un then (- cutoff, Some ErrRange)
               else (if neg then - un else un, None))))"

definition parseRowsAffected :: "string \<Rightarrow> 64 word" where
  "parseRowsAffected tag =
     (let parts = SplitSpace tag in
      if length parts = 0 then 0
      else fst (ParseInt (parts ! (length parts - 1))))"

definition handleCommandComplete :: "bytes \<Rightarrow> conn \<Rightarrow> conn" where
  "handleCommandComplete commandTag c =
     (let rows = parseRowsAffected (string_of_bytes commandTag) in c)"

definition handleErrorResponse :: "bytes \<Rightarrow> conn \<Rightarrow> conn" where
  "handleErrorResponse m c = c"

fun captureUpstreamMsg :: "BackendMessage \<Rightarrow> conn \<Rightarrow> chan \<Rightarrow> conn \<times> chan" where
  "captureUpstreamMsg (CommandComplete tag) c ch = (handleCommandComplete tag c, ch)"
| "captureUpstreamMsg (ErrorResponse m) c ch = (handleErrorResponse m c, ch)"
| "captureUpstreamMsg (ReadyForQuery st) c ch = (c, ch)"
| "captureUpstreamMsg (OtherBackend b) c ch = (c, ch)"

section \<open>A connection's captured client messages, in order\<close>

text \<open>
  The client pump decodes one message after the other and calls \<open>captureClientMsg\<close> on
  each. A captured message comes with the clock reading and the random bytes its hook
  may use. \<open>clientStep\<close> is the hook without the channel: the event it hands to
  \<open>emitEvent\<close>, if it builds one, and the state it leaves.
\<close>

type_synonym observed = "FrontendMessage \<times> Time \<times> rand"

fun clientStep :: "FrontendMessage \<Rightarrow> Time \<Rightarrow> rand \<Rightarrow> conn \<Rightarrow> Event option \<times> conn" where
  "clientStep (QueryMsg q) now r c = (case simpleQueryEvent q now r c of (ev, c) \<Rightarrow> (Some ev, c))"
| "clientStep (ParseMsg name query) now r c = (None, handleParse name query c)"
| "clientStep (BindMsg stmt params) now r c = (None, handleBind stmt params c)"
| "clientStep ExecuteMsg now r c = (case executeEvent now r c of (ev, c) \<Rightarrow> (Some ev, c))"
| "clientStep OtherFrontend now r c = (None, c)"

fun connAfter :: "observed list \<Rightarrow> conn \<Rightarrow> conn" where
  "connAfter [] c = c"
| "connAfter ((m, now, r) # ms) c = connAfter ms (snd (clientStep m now r c))"

fun events :: "observed list \<Rightarrow> conn \<Rightarrow> Event list" where
  "events [] c = []"
| "events ((m, now, r) # ms) c =
     (case clientStep m now r c of
        (None, c) \<Rightarrow> events ms c
      | (Some ev, c) \<Rightarrow> ev # events ms c)"

text \<open>
  The query text a message makes \<open>detectTx\<close> look at: the text of a simple Query, the
  text \<open>handleExecute\<close> resolves for an Execute, none for any other message.
\<close>

definition resolvedQuery :: "conn \<Rightarrow> string" where
  "resolvedQuery c =
     (if lastBindStmt c \<noteq> []
      then (case preparedStmts c (lastBindStmt c) of Some stored \<Rightarrow> stored | None \<Rightarrow> lastParse c)
      else lastParse c)"


text \<open>
  The class of a query text, in the words of the specification: the text with its
  leading white space trimmed, in upper case, begins with \<open>BEGIN\<close>, or with \<open>COMMIT\<close> or
  \<open>ROLLBACK\<close>, or with none of them.
\<close>

datatype TxClass = TxBegin | TxEnd | TxOther

definition txClass :: "string \<Rightarrow> TxClass" where
  "txClass q =
     (let upper = ToUpper (TrimLeft q) in
      if HasPrefix upper ''BEGIN'' then TxBegin
      else if HasPrefix upper ''COMMIT'' \<or> HasPrefix upper ''ROLLBACK'' then TxEnd
      else TxOther)"


text \<open>The Parse and Bind messages of a sequence, in order.\<close>

fun parses :: "observed list \<Rightarrow> (string \<times> string) list" where
  "parses [] = []"
| "parses ((ParseMsg name query, now, r) # ms) = (name, query) # parses ms"
| "parses (m # ms) = parses ms"

fun binds :: "observed list \<Rightarrow> (string \<times> bytes list) list" where
  "binds [] = []"
| "binds ((BindMsg stmt params, now, r) # ms) = (stmt, params) # binds ms"
| "binds (m # ms) = binds ms"

text \<open>The value of a string of decimal digits, for reading an event identifier back.\<close>

definition digitValue :: "char \<Rightarrow> nat" where
  "digitValue c = of_char c - 48"

definition decimalValue :: "string \<Rightarrow> nat" where
  "decimalValue s = foldl (\<lambda>a c. a * 10 + digitValue c) 0 s"

text \<open>
  For stating what \<open>parseRowsAffected\<close> returns: the decimal digits, and the last
  space-separated token of a tag, which is what follows its last space (the whole tag
  when it has no space).
\<close>

definition isDigit :: "char \<Rightarrow> bool" where
  "isDigit c = ((48::nat) \<le> of_char c \<and> of_char c \<le> (57::nat))"

definition lastToken :: "string \<Rightarrow> string" where
  "lastToken tag = rev (takeWhile (\<lambda>c. c \<noteq> CHR '' '') (rev tag))"

section \<open>The startup relay\<close>

text \<open>
  A Go error: one made by \<^verbatim>\<open>errors.New\<close>, or one wrapped with a prefix by
  \<^verbatim>\<open>fmt.Errorf("...: %w", err)\<close>. An error of the network or of the decoder is a value
  of the same type.
\<close>

datatype error = New string | Wrap string error

text \<open>
  What the startup relay meets on its sockets: the result of
  \<^verbatim>\<open>ReceiveStartupMessage\<close>, the result of the \<open>k\<close>-th \<^verbatim>\<open>Receive\<close> on the upstream
  decoder, the result of \<^verbatim>\<open>Encode\<close> for each message, and the outcome of the \<open>k\<close>-th
  \<^verbatim>\<open>Write\<close> on each socket (\<open>None\<close> when it succeeds). The decoders and the encoders
  are those of the protocol library; a startup message is kept as its body.
\<close>

type_synonym StartupMessage = bytes

record env =
  recvStartup :: "error + StartupMessage"
  encodeStartup :: "StartupMessage \<Rightarrow> error + bytes"
  writeUpstream :: "nat \<Rightarrow> error option"
  recvUpstream :: "nat \<Rightarrow> error + BackendMessage"
  encodeBackend :: "BackendMessage \<Rightarrow> error + bytes"
  writeClient :: "nat \<Rightarrow> error option"

text \<open>
  What has happened on the sockets: the buffers written to each, in order, and how many
  backend messages have been received. A failed write adds nothing.
\<close>

record wire =
  toUpstream :: "bytes list"
  toClient :: "bytes list"
  received :: nat

definition encodeAndWrite :: "(nat \<Rightarrow> error option) \<Rightarrow> bytes list \<Rightarrow> error + bytes \<Rightarrow> error + bytes list" where
  "encodeAndWrite wr written enc =
     (case enc of
        Inl err \<Rightarrow> Inl (Wrap ''postgres: encode'' err)
      | Inr b \<Rightarrow>
          (case wr (length written) of
             Some err \<Rightarrow> Inl (Wrap ''postgres: write'' err)
           | None \<Rightarrow> Inr (written @ [b])))"

text \<open>
  The loop of \<^verbatim>\<open>relayStartup\<close>. It returns \<open>None\<close> for the error when it returns
  \<^verbatim>\<open>nil\<close>. It need not return: upstream may go on sending messages that are neither
  ReadyForQuery nor ErrorResponse; the loop is then undefined (\<open>None\<close> at the outer
  option).
\<close>

partial_function (option) authLoop :: "env \<Rightarrow> wire \<Rightarrow> (error option \<times> wire) option" where
  "authLoop e w =
     (case recvUpstream e (received w) of
        Inl err \<Rightarrow> Some (Some (Wrap ''postgres: receive auth'' err), w)
      | Inr msg \<Rightarrow>
          (let w = w\<lparr>received := Suc (received w)\<rparr> in
           case encodeAndWrite (writeClient e) (toClient w) (encodeBackend e msg) of
             Inl err \<Rightarrow> Some (Some (Wrap ''postgres: send auth'' err), w)
           | Inr out \<Rightarrow>
               (let w = w\<lparr>toClient := out\<rparr> in
                case msg of
                  ReadyForQuery st \<Rightarrow> Some (None, w)
                | ErrorResponse body \<Rightarrow> Some (Some (New ''postgres: auth error from upstream''), w)
                | CommandComplete tag \<Rightarrow> authLoop e w
                | OtherBackend body \<Rightarrow> authLoop e w)))"

definition relayStartup :: "env \<Rightarrow> (error option \<times> wire) option" where
  "relayStartup e =
     (let w = \<lparr>toUpstream = [], toClient = [], received = 0\<rparr> in
      case recvStartup e of
        Inl err \<Rightarrow> Some (Some (Wrap ''postgres: receive startup'' err), w)
      | Inr startupMsg \<Rightarrow>
          (case encodeAndWrite (writeUpstream e) (toUpstream w) (encodeStartup e startupMsg) of
             Inl err \<Rightarrow> Some (Some (Wrap ''postgres: send startup'' err), w)
           | Inr out \<Rightarrow> authLoop e (w\<lparr>toUpstream := out\<rparr>)))"

text \<open>
  One iteration of the loop: \<open>Inl\<close> with what the relay returns when the iteration
  returns, \<open>Inr\<close> with the state of the next iteration otherwise.
\<close>

definition authIter :: "env \<Rightarrow> wire \<Rightarrow> (error option \<times> wire) + wire" where
  "authIter e w =
     (case recvUpstream e (received w) of
        Inl err \<Rightarrow> Inl (Some (Wrap ''postgres: receive auth'' err), w)
      | Inr msg \<Rightarrow>
          (let w = w\<lparr>received := Suc (received w)\<rparr> in
           case encodeAndWrite (writeClient e) (toClient w) (encodeBackend e msg) of
             Inl err \<Rightarrow> Inl (Some (Wrap ''postgres: send auth'' err), w)
           | Inr out \<Rightarrow>
               (let w = w\<lparr>toClient := out\<rparr> in
                case msg of
                  ReadyForQuery st \<Rightarrow> Inl (None, w)
                | ErrorResponse body \<Rightarrow> Inl (Some (New ''postgres: auth error from upstream''), w)
                | CommandComplete tag \<Rightarrow> Inr w
                | OtherBackend body \<Rightarrow> Inr w)))"

text \<open>
  For stating what the relay does. \<open>startupSent\<close>: the startup message was received,
  encoded and written to upstream, and these are the bytes written. \<open>forwardedMsg e k\<close>:
  backend message \<open>k\<close> was received, encoded and written to the client, with the bytes
  written. \<open>relayed e n\<close>: the first \<open>n\<close> backend messages were all forwarded and none was
  a ReadyForQuery or an ErrorResponse. \<open>forwardedBytes e n\<close>: the bytes written to the
  client for the first \<open>n\<close> messages.
\<close>

definition startupSent :: "env \<Rightarrow> bytes option" where
  "startupSent e =
     (case recvStartup e of
        Inl err \<Rightarrow> None
      | Inr startupMsg \<Rightarrow>
          (case encodeStartup e startupMsg of
             Inl err \<Rightarrow> None
           | Inr b \<Rightarrow> (case writeUpstream e 0 of Some err \<Rightarrow> None | None \<Rightarrow> Some b)))"

definition forwardedMsg :: "env \<Rightarrow> nat \<Rightarrow> (BackendMessage \<times> bytes) option" where
  "forwardedMsg e k =
     (case recvUpstream e k of
        Inl err \<Rightarrow> None
      | Inr msg \<Rightarrow>
          (case encodeBackend e msg of
             Inl err \<Rightarrow> None
           | Inr b \<Rightarrow> (case writeClient e k of Some err \<Rightarrow> None | None \<Rightarrow> Some (msg, b))))"

fun isTerminal :: "BackendMessage \<Rightarrow> bool" where
  "isTerminal (ReadyForQuery st) = True"
| "isTerminal (ErrorResponse body) = True"
| "isTerminal (CommandComplete tag) = False"
| "isTerminal (OtherBackend body) = False"

definition passedOn :: "env \<Rightarrow> nat \<Rightarrow> bool" where
  "passedOn e k = (case forwardedMsg e k of None \<Rightarrow> False | Some (msg, b) \<Rightarrow> \<not> isTerminal msg)"

definition relayed :: "env \<Rightarrow> nat \<Rightarrow> bool" where
  "relayed e n = list_all (passedOn e) [0..<n]"

definition forwardedBytes :: "env \<Rightarrow> nat \<Rightarrow> bytes list" where
  "forwardedBytes e n = map (\<lambda>k. case forwardedMsg e k of None \<Rightarrow> [] | Some (msg, b) \<Rightarrow> b) [0..<n]"

text \<open>The state of the sockets when iteration \<open>k\<close> begins.\<close>

definition stateAt :: "bytes list \<Rightarrow> env \<Rightarrow> nat \<Rightarrow> wire" where
  "stateAt up e k = \<lparr>toUpstream = up, toClient = forwardedBytes e k, received = k\<rparr>"

text \<open>
  An upstream for the examples: an authentication message, then the given message; every
  read, encoding and write succeeds.
\<close>

definition exampleEnv :: "BackendMessage \<Rightarrow> env" where
  "exampleEnv final =
     \<lparr>recvStartup = Inr [0, 3, 0, 0],
      encodeStartup = (\<lambda>m. Inr m),
      writeUpstream = (\<lambda>k. None),
      recvUpstream = (\<lambda>k. if k = 0 then Inr (OtherBackend [0x52, 0]) else Inr final),
      encodeBackend = (\<lambda>m. case m of
          ReadyForQuery st \<Rightarrow> Inr [0x5A, st]
        | ErrorResponse body \<Rightarrow> Inr (0x45 # body)
        | CommandComplete tag \<Rightarrow> Inr (0x43 # tag)
        | OtherBackend body \<Rightarrow> Inr body),
      writeClient = (\<lambda>k. None)\<rparr>"

section \<open>Parse, Bind and the upstream hooks change what they should and nothing else\<close>

lemma length_bindArgs: "length (bindArgs i ps args) = length args"
  by (induction ps arbitrary: i args) simp_all

lemma bindArgs_map:
  "bindArgs (length pre) ps (pre @ replicate (length ps) x) = pre @ map string_of_bytes ps"
proof (induction ps arbitrary: pre)
  case Nil
  then show ?case by simp
next
  case (Cons p ps)
  have "bindArgs (length pre) (p # ps) (pre @ replicate (length (p # ps)) x)
      = bindArgs (Suc (length pre)) ps ((pre @ [string_of_bytes p]) @ replicate (length ps) x)"
    by (simp add: list_update_append)
  also have "\<dots> = (pre @ [string_of_bytes p]) @ map string_of_bytes ps"
    using Cons.IH [of "pre @ [string_of_bytes p]"] by simp
  finally show ?case by simp
qed

lemma handleBind_args: "lastBindArgs (handleBind stmt params c) = map string_of_bytes params"
  using bindArgs_map [of "[]" params "[]"] by (simp add: handleBind_def)

text \<open>
  C8. A Parse sets \<open>lastParse\<close> to its query text, stores the pair (name, query) in
  \<open>preparedStmts\<close> exactly when the name is not empty, removes no entry, leaves every
  other field as it was and puts nothing on the channel. A Bind sets \<open>lastBindStmt\<close>
  and \<open>lastBindArgs\<close>, the latter to the parameters read as strings, in order, leaves
  every other field as it was and puts nothing on the channel.
\<close>

theorem parse_bind_frame:
  "handleParse name query c =
     c\<lparr>lastParse := query,
       preparedStmts := (if name = [] then preparedStmts c else (preparedStmts c)(name \<mapsto> query))\<rparr>
   \<and> dom (preparedStmts c) \<subseteq> dom (preparedStmts (handleParse name query c))
   \<and> captureClientMsg (ParseMsg name query) now r c ch = (handleParse name query c, ch)
   \<and> handleBind stmt params c =
       c\<lparr>lastBindStmt := stmt, lastBindArgs := map string_of_bytes params\<rparr>
   \<and> captureClientMsg (BindMsg stmt params) now r c ch = (handleBind stmt params c, ch)"
proof -
  have "lastBindArgs (handleBind stmt params c) = map string_of_bytes params"
    by (rule handleBind_args)
  then have "handleBind stmt params c =
      c\<lparr>lastBindStmt := stmt, lastBindArgs := map string_of_bytes params\<rparr>"
    by (simp add: handleBind_def)
  then show ?thesis
    by (auto simp: handleParse_def)
qed

text \<open>
  C9. A CommandComplete or an ErrorResponse from upstream (and any other backend
  message) leaves the connection state and the channel as they were: no event, no field
  changed.
\<close>

theorem captureUpstreamMsg_noop: "captureUpstreamMsg m c ch = (c, ch)"
  by (cases m) (simp_all add: handleCommandComplete_def handleErrorResponse_def)

section \<open>Transaction detection looks at the leading keyword\<close>

lemma HasPrefix_prefix: "HasPrefix s pre = prefix pre s"
  unfolding HasPrefix_def
  by (metis prefix_def append_eq_conv_conj prefix_length_le take_is_prefix)

lemma upperByte_space: "isSpace c \<Longrightarrow> upperByte c = c"
  by (auto simp: isSpace_def upperByte_def)

lemma TrimRight_split: "\<exists>sp. s = TrimRight s @ sp \<and> (\<forall>c\<in>set sp. isSpace c)"
proof -
  let ?sp = "rev (takeWhile isSpace (rev s))"
  have "rev s = takeWhile isSpace (rev s) @ dropWhile isSpace (rev s)" by simp
  then have "s = rev (dropWhile isSpace (rev s)) @ ?sp"
    by (metis rev_append rev_rev_ident)
  moreover have "\<forall>c\<in>set ?sp. isSpace c"
    by (auto dest: set_takeWhileD)
  ultimately show ?thesis unfolding TrimRight_def by blast
qed

lemma prefix_no_space:
  assumes kw: "\<forall>c\<in>set kw. \<not> isSpace c" and sp: "\<forall>c\<in>set sp. isSpace c"
  shows "prefix kw (ToUpper (a @ sp)) = prefix kw (ToUpper a)"
proof
  assume "prefix kw (ToUpper a)"
  then show "prefix kw (ToUpper (a @ sp))" by (simp add: ToUpper_def)
next
  assume "prefix kw (ToUpper (a @ sp))"
  then have "prefix kw (ToUpper a @ ToUpper sp)" by (simp add: ToUpper_def)
  then consider "prefix kw (ToUpper a)" | us where "kw = ToUpper a @ us" "prefix us (ToUpper sp)"
    by (auto simp: prefix_append)
  then show "prefix kw (ToUpper a)"
  proof cases
    case 1 then show ?thesis .
  next
    case 2
    show ?thesis
    proof (cases us)
      case Nil with 2 show ?thesis by simp
    next
      case (Cons u us')
      with 2 have "u \<in> set (ToUpper sp)" by (auto simp: prefix_def)
      then obtain c where "c \<in> set sp" "u = upperByte c" by (auto simp: ToUpper_def)
      with sp have "isSpace u" by (simp add: upperByte_space)
      moreover from 2 Cons have "u \<in> set kw" by simp
      ultimately show ?thesis using kw by blast
    qed
  qed
qed

lemma HasPrefix_TrimSpace:
  assumes "\<forall>c\<in>set kw. \<not> isSpace c"
  shows "HasPrefix (ToUpper (TrimSpace q)) kw = HasPrefix (ToUpper (TrimLeft q)) kw"
proof -
  obtain sp where sp: "TrimLeft q = TrimRight (TrimLeft q) @ sp" "\<forall>c\<in>set sp. isSpace c"
    using TrimRight_split by blast
  have "prefix kw (ToUpper (TrimRight (TrimLeft q) @ sp)) = prefix kw (ToUpper (TrimRight (TrimLeft q)))"
    using assms sp(2) by (rule prefix_no_space)
  with sp(1) show ?thesis by (simp add: HasPrefix_prefix TrimSpace_def)
qed

lemma detectTx_class:
  "detectTx q r c =
     (case txClass q of
        TxBegin \<Rightarrow> c\<lparr>activeTxID := uuid_String (uuid_New r)\<rparr>
      | TxEnd \<Rightarrow> c\<lparr>activeTxID := []\<rparr>
      | TxOther \<Rightarrow> c)"
proof -
  have "HasPrefix (ToUpper (TrimSpace q)) ''BEGIN'' = HasPrefix (ToUpper (TrimLeft q)) ''BEGIN''"
    by (rule HasPrefix_TrimSpace) (simp add: isSpace_def)
  moreover have "HasPrefix (ToUpper (TrimSpace q)) ''COMMIT'' = HasPrefix (ToUpper (TrimLeft q)) ''COMMIT''"
    by (rule HasPrefix_TrimSpace) (simp add: isSpace_def)
  moreover have "HasPrefix (ToUpper (TrimSpace q)) ''ROLLBACK'' = HasPrefix (ToUpper (TrimLeft q)) ''ROLLBACK''"
    by (rule HasPrefix_TrimSpace) (simp add: isSpace_def)
  ultimately show ?thesis by (simp add: detectTx_def txClass_def Let_def)
qed


lemma connAfter_append: "connAfter (ms @ ms') c = connAfter ms' (connAfter ms c)"
  by (induction ms c rule: connAfter.induct) simp_all

lemma events_append: "events (ms @ ms') c = events ms c @ events ms' (connAfter ms c)"
  by (induction ms c rule: events.induct) (simp_all split: prod.splits option.splits)


section \<open>The transaction identifier along a connection\<close>

lemma generateID_simps:
  "fst (generateID c) = FormatUint (nextID c + 1)"
  "snd (generateID c) = c\<lparr>nextID := nextID c + 1\<rparr>"
  by (simp_all add: generateID_def Let_def)

lemma simpleQueryEvent_eq:
  "simpleQueryEvent q now r c =
     (\<lparr>ID = FormatUint (nextID c + 1), Op = OpQuery, Query = q, Args = [], StartTime = now,
        TxID = activeTxID (detectTx q r c)\<rparr>,
      (detectTx q r c)\<lparr>nextID := nextID c + 1\<rparr>)"
  by (simp add: simpleQueryEvent_def generateID_def Let_def detectTx_def)

lemma executeEvent_eq:
  "executeEvent now r c =
     (\<lparr>ID = FormatUint (nextID c + 1), Op = OpExecute, Query = resolvedQuery c,
        Args = lastBindArgs c, StartTime = now,
        TxID = activeTxID (detectTx (resolvedQuery c) r c)\<rparr>,
      (detectTx (resolvedQuery c) r c)\<lparr>executeStart := now, nextID := nextID c + 1\<rparr>)"
  by (simp add: executeEvent_def generateID_def Let_def detectTx_def resolvedQuery_def)




section \<open>Events: transaction identifier, query text, emission\<close>

lemma char_of_numeral_nat:
  "char_of (numeral k :: nat) =
     Char (bit (numeral k :: nat) 0) (bit (numeral k :: nat) 1) (bit (numeral k :: nat) 2)
       (bit (numeral k :: nat) 3) (bit (numeral k :: nat) 4) (bit (numeral k :: nat) 5)
       (bit (numeral k :: nat) 6) (bit (numeral k :: nat) 7)"
  by (rule char_of_def)

lemmas eval_string =
  ToUpper_def TrimSpace_def TrimLeft_def TrimRight_def isSpace_def upperByte_def HasPrefix_def
  char_of_numeral_nat bit_Suc_0_iff

lemma txClass_examples:
  "txClass ''BEGIN'' = TxBegin" "txClass ''COMMIT'' = TxEnd" "txClass ''  rollback to x'' = TxEnd" "txClass ''SELECT 1'' = TxOther"
  by (simp_all add: txClass_def eval_string)

lemma uuid_zero: "uuid_String (uuid_New 0) = ''00000000-0000-4000-8000-000000000000''"
  by (simp add: uuid_String_def uuid_New_def rand_bytes_def encodeHex_def hexByte_def upt_rec)

text \<open>
  C1. The specification asks that the event of a COMMIT or ROLLBACK carries the
  transaction identifier that was active before it, and that the identifier is empty
  afterwards. The code does the second but not the first: \<open>detectTx\<close> clears the
  identifier before the event is built. On the messages BEGIN, COMMIT the identifier is
  set after the BEGIN, and the event of the COMMIT carries the empty string.
\<close>

theorem commit_event_tx_id:
  "activeTxID (connAfter [(QueryMsg ''BEGIN'', 0, 0)] newConn) = ''00000000-0000-4000-8000-000000000000''
   \<and> map TxID (events [(QueryMsg ''BEGIN'', 0, 0), (QueryMsg ''COMMIT'', 1, 0)] newConn)
       = [''00000000-0000-4000-8000-000000000000'', []]"
  by (simp add: simpleQueryEvent_eq detectTx_class txClass_examples uuid_zero newConn_def)



text \<open>
  C6. \<open>emitEvent\<close> always returns: it appends the event to the buffer when the buffer
  has room and leaves the channel as it was otherwise; it never changes the connection
  state. So the state a capture hook leaves does not depend on the channel, and the
  channel changes only by the one event, when there is room.
\<close>

theorem emit_nonblocking:
  "emitEvent ev c ch = (c, if length (buf ch) < cap ch then ch\<lparr>buf := buf ch @ [ev]\<rparr> else ch)
   \<and> captureClientMsg m now r c ch =
       (snd (clientStep m now r c),
        case fst (clientStep m now r c) of
          None \<Rightarrow> ch
        | Some ev \<Rightarrow> if length (buf ch) < cap ch then ch\<lparr>buf := buf ch @ [ev]\<rparr> else ch)"
  by (cases m)
    (simp_all add: emitEvent_def handleSimpleQuery_def handleExecute_def split: prod.splits)

section \<open>What Parse and Bind leave for Execute\<close>

lemma parses_append: "parses (ms @ ms') = parses ms @ parses ms'"
  by (induction ms rule: parses.induct) simp_all

lemma binds_append: "binds (ms @ ms') = binds ms @ binds ms'"
  by (induction ms rule: binds.induct) simp_all

lemma clientStep_lastParse:
  "lastParse (snd (clientStep m now r c)) = (case m of ParseMsg n q \<Rightarrow> q | _ \<Rightarrow> lastParse c)"
  by (cases m)
    (simp_all add: simpleQueryEvent_eq executeEvent_eq detectTx_class handleParse_def
      handleBind_def Let_def split: TxClass.splits)

lemma clientStep_lastBindStmt:
  "lastBindStmt (snd (clientStep m now r c)) = (case m of BindMsg s ps \<Rightarrow> s | _ \<Rightarrow> lastBindStmt c)"
  by (cases m)
    (simp_all add: simpleQueryEvent_eq executeEvent_eq detectTx_class handleParse_def
      handleBind_def Let_def split: TxClass.splits)

lemma clientStep_lastBindArgs:
  "lastBindArgs (snd (clientStep m now r c)) =
     (case m of BindMsg s ps \<Rightarrow> map string_of_bytes ps | _ \<Rightarrow> lastBindArgs c)"
  by (cases m)
    (simp_all add: simpleQueryEvent_eq executeEvent_eq detectTx_class handleParse_def
      handleBind_args Let_def split: TxClass.splits)

lemma clientStep_preparedStmts:
  "preparedStmts (snd (clientStep m now r c)) =
     (case m of ParseMsg n q \<Rightarrow> (if n = [] then preparedStmts c else (preparedStmts c)(n \<mapsto> q))
      | _ \<Rightarrow> preparedStmts c)"
  by (cases m)
    (simp_all add: simpleQueryEvent_eq executeEvent_eq detectTx_class handleParse_def
      handleBind_def Let_def split: TxClass.splits)

lemma connAfter_snoc: "connAfter (ms @ [(m, now, r)]) c = snd (clientStep m now r (connAfter ms c))"
  by (simp add: connAfter_append)

lemma connAfter_lastParse:
  "lastParse (connAfter ms c) = (if parses ms = [] then lastParse c else snd (last (parses ms)))"
proof (induction ms rule: rev_induct)
  case Nil
  then show ?case by simp
next
  case (snoc x ms)
  obtain m now r where x: "x = (m, now, r)" by (cases x)
  show ?case unfolding x connAfter_snoc clientStep_lastParse parses_append using snoc
    by (cases m) simp_all
qed

lemma connAfter_lastBindStmt:
  "lastBindStmt (connAfter ms c) = (if binds ms = [] then lastBindStmt c else fst (last (binds ms)))"
proof (induction ms rule: rev_induct)
  case Nil
  then show ?case by simp
next
  case (snoc x ms)
  obtain m now r where x: "x = (m, now, r)" by (cases x)
  show ?case unfolding x connAfter_snoc clientStep_lastBindStmt binds_append using snoc
    by (cases m) simp_all
qed

lemma connAfter_lastBindArgs:
  "lastBindArgs (connAfter ms c) =
     (if binds ms = [] then lastBindArgs c else map string_of_bytes (snd (last (binds ms))))"
proof (induction ms rule: rev_induct)
  case Nil
  then show ?case by simp
next
  case (snoc x ms)
  obtain m now r where x: "x = (m, now, r)" by (cases x)
  show ?case unfolding x connAfter_snoc clientStep_lastBindArgs binds_append using snoc
    by (cases m) simp_all
qed

lemma connAfter_preparedStmts:
  "preparedStmts (connAfter ms c) =
     preparedStmts c ++ map_of (rev (filter (\<lambda>(n, q). n \<noteq> []) (parses ms)))"
proof (induction ms rule: rev_induct)
  case Nil
  then show ?case by simp
next
  case (snoc x ms)
  obtain m now r where x: "x = (m, now, r)" by (cases x)
  show ?case unfolding x connAfter_snoc clientStep_preparedStmts parses_append using snoc
    by (cases m) (auto simp: fun_eq_iff map_add_def)
qed

lemma no_empty_name: "preparedStmts (connAfter ms newConn) [] = None"
proof -
  have "[] \<notin> fst ` set (rev (filter (\<lambda>(n, q). n \<noteq> []) (parses ms)))" by auto
  then have "map_of (rev (filter (\<lambda>(n, q). n \<noteq> []) (parses ms))) [] = None"
    using map_of_eq_None_iff by metis
  then show ?thesis by (simp add: connAfter_preparedStmts newConn_def map_add_def)
qed


text \<open>
  C2. On a connection that has captured any sequence of messages, the event of an
  Execute has the operation Execute, the arguments stored by the most recent Bind (its
  parameters as strings), the transaction identifier that is active once \<open>detectTx\<close> has
  looked at the query, and as query the text stored in \<open>preparedStmts\<close> under the name
  of the most recent Bind when there is one, else the text of the most recent Parse. The
  name table holds, for each non-empty name, the text of the most recent Parse of that
  name.
\<close>

theorem execute_event:
  "(let c = connAfter ms newConn;
        ev = fst (executeEvent now r c);
        c' = snd (executeEvent now r c)
    in clientStep ExecuteMsg now r c = (Some ev, c')
       \<and> Op ev = OpExecute
       \<and> Args ev = lastBindArgs c
       \<and> TxID ev = activeTxID c'
       \<and> Query ev = (case preparedStmts c (lastBindStmt c) of Some stored \<Rightarrow> stored | None \<Rightarrow> lastParse c)
       \<and> lastBindArgs c = (if binds ms = [] then [] else map string_of_bytes (snd (last (binds ms))))
       \<and> lastBindStmt c = (if binds ms = [] then [] else fst (last (binds ms)))
       \<and> lastParse c = (if parses ms = [] then [] else snd (last (parses ms)))
       \<and> preparedStmts c = map_of (rev (filter (\<lambda>(n, q). n \<noteq> []) (parses ms))))"
proof -
  let ?c = "connAfter ms newConn"
  have "preparedStmts ?c [] = None" by (rule no_empty_name)
  then have q: "resolvedQuery ?c =
      (case preparedStmts ?c (lastBindStmt ?c) of Some stored \<Rightarrow> stored | None \<Rightarrow> lastParse ?c)"
    by (simp add: resolvedQuery_def)
  have p: "preparedStmts ?c = map_of (rev (filter (\<lambda>(n, q). n \<noteq> []) (parses ms)))"
    by (simp add: connAfter_preparedStmts newConn_def)
  have a: "lastBindArgs ?c = (if binds ms = [] then [] else map string_of_bytes (snd (last (binds ms))))"
    by (simp add: connAfter_lastBindArgs newConn_def)
  have s: "lastBindStmt ?c = (if binds ms = [] then [] else fst (last (binds ms)))"
    by (simp add: connAfter_lastBindStmt newConn_def)
  have l: "lastParse ?c = (if parses ms = [] then [] else snd (last (parses ms)))"
    by (simp add: connAfter_lastParse newConn_def)
  have e: "clientStep ExecuteMsg now r ?c = (Some (fst (executeEvent now r ?c)), snd (executeEvent now r ?c))"
    by (simp add: split_beta)
  have o: "Op (fst (executeEvent now r ?c)) = OpExecute"
    "Args (fst (executeEvent now r ?c)) = lastBindArgs ?c"
    "TxID (fst (executeEvent now r ?c)) = activeTxID (snd (executeEvent now r ?c))"
    "Query (fst (executeEvent now r ?c)) = resolvedQuery ?c"
    by (simp_all add: executeEvent_eq)
  show ?thesis
    unfolding Let_def using e o q p a s l by presburger
qed

text \<open>
  An instance: two Parse messages, one named, and a Bind of the named statement.
\<close>

theorem execute_event_example:
  "(let ms = [(ParseMsg ''p1'' ''INSERT INTO t VALUES ($1)'', 0, 0), (ParseMsg [] ''SELECT 1'', 0, 0),
              (BindMsg ''p1'' [[0x78]], 0, 0)];
        ev = fst (executeEvent 5 0 (connAfter ms newConn))
    in Query ev = ''INSERT INTO t VALUES ($1)'' \<and> Args ev = [''x''] \<and> Op ev = OpExecute \<and> TxID ev = [])"
  using execute_event [of "[(ParseMsg ''p1'' ''INSERT INTO t VALUES ($1)'', 0, 0), (ParseMsg [] ''SELECT 1'', 0, 0),
              (BindMsg ''p1'' [[0x78]], 0, 0)]" 5 0]
  by (simp add: Let_def string_of_bytes_def executeEvent_eq
      detectTx_class txClass_def eval_string handleParse_def handleBind_def newConn_def)

section \<open>Event identifiers\<close>

lemma clientStep_nextID:
  "nextID (snd (clientStep m now r c)) =
     (case fst (clientStep m now r c) of None \<Rightarrow> nextID c | Some ev \<Rightarrow> nextID c + 1)"
  by (cases m)
    (simp_all add: simpleQueryEvent_eq executeEvent_eq detectTx_class handleParse_def
      handleBind_def Let_def split: TxClass.splits)

lemma clientStep_ID:
  "map_option ID (fst (clientStep m now r c)) =
     (case fst (clientStep m now r c) of None \<Rightarrow> None | Some ev \<Rightarrow> Some (FormatUint (nextID c + 1)))"
  by (cases m) (simp_all add: simpleQueryEvent_eq executeEvent_eq)

lemma events_snoc:
  "events (ms @ [(m, now, r)]) c =
     events ms c @ (case fst (clientStep m now r (connAfter ms c)) of None \<Rightarrow> [] | Some ev \<Rightarrow> [ev])"
  by (simp add: events_append split: prod.splits option.splits)

lemma nextID_connAfter: "nextID (connAfter ms c) = nextID c + of_nat (length (events ms c))"
proof (induction ms rule: rev_induct)
  case Nil
  then show ?case by simp
next
  case (snoc x ms)
  obtain m now r where x: "x = (m, now, r)" by (cases x)
  show ?case unfolding x connAfter_snoc events_snoc clientStep_nextID using snoc
    by (simp split: option.splits)
qed

lemma ids_wrapping:
  "map ID (events ms c) =
     map (\<lambda>k. FormatUint (nextID c + of_nat k)) [1..<Suc (length (events ms c))]"
proof (induction ms rule: rev_induct)
  case Nil
  then show ?case by simp
next
  case (snoc x ms)
  obtain m now r where x: "x = (m, now, r)" by (cases x)
  show ?case
  proof (cases "fst (clientStep m now r (connAfter ms c))")
    case None
    then show ?thesis unfolding x events_snoc using snoc by simp
  next
    case (Some ev)
    with clientStep_ID [of m now r "connAfter ms c"]
    have "ID ev = FormatUint (nextID (connAfter ms c) + 1)" by simp
    then have "ID ev = FormatUint (nextID c + of_nat (Suc (length (events ms c))))"
      by (simp add: nextID_connAfter add_ac)
    then show ?thesis unfolding x events_snoc using snoc Some by simp
  qed
qed

lemma less_10_cases: "(d::nat) < 10 \<Longrightarrow> d = 0 \<or> d = 1 \<or> d = 2 \<or> d = 3 \<or> d = 4 \<or> d = 5 \<or> d = 6 \<or> d = 7 \<or> d = 8 \<or> d = 9"
  by arith

lemma digitValue_digit: "d < 10 \<Longrightarrow> digitValue (''0123456789'' ! d) = d"
  using less_10_cases [of d] by (auto simp: digitValue_def)


lemma decimalValue_snoc: "decimalValue (s @ [c]) = decimalValue s * 10 + digitValue c"
  by (simp add: decimalValue_def)

lemma decimalValue_formatDecimal: "decimalValue (formatDecimal n) = n"
proof (induction n rule: formatDecimal.induct)
  case (1 n)
  show ?case
  proof (cases "n < 10")
    case True
    then have "formatDecimal n = [''0123456789'' ! n]"
      by (subst formatDecimal.simps) simp
    with True show ?thesis
      using decimalValue_snoc [of "[]" "''0123456789'' ! n"]
      by (simp only: digitValue_digit append_Nil) (simp add: decimalValue_def)
  next
    case False
    then have ih: "decimalValue (formatDecimal (n div 10)) = n div 10" using 1 by simp
    from False have "formatDecimal n = formatDecimal (n div 10) @ [''0123456789'' ! (n mod 10)]"
      by (subst formatDecimal.simps) simp
    then have "decimalValue (formatDecimal n) = n div 10 * 10 + n mod 10"
      by (simp only: decimalValue_snoc ih digitValue_digit [of "n mod 10"])
    then show ?thesis by simp
  qed
qed

lemma ids_small:
  assumes "length (events ms newConn) < 2 ^ 64"
  shows "map ID (events ms newConn) = map formatDecimal [1..<Suc (length (events ms newConn))]"
proof -
  have "FormatUint (nextID newConn + of_nat k) = formatDecimal k"
    if "k \<in> set [1..<Suc (length (events ms newConn))]" for k
  proof -
    from that have "k \<le> length (events ms newConn)" by auto
    from this assms have "k < 2 ^ 64" by (rule le_less_trans)
    then have "unat (of_nat k :: 64 word) = k" by (simp add: unat_of_nat)
    then show ?thesis by (simp add: FormatUint_def newConn_def)
  qed
  then show ?thesis unfolding ids_wrapping [of ms newConn] by (simp only: map_eq_conv) blast
qed

lemma nextID_small:
  assumes "length (events ms newConn) < 2 ^ 64"
  shows "unat (nextID (connAfter ms newConn)) = length (events ms newConn)"
  using assms by (simp add: nextID_connAfter newConn_def unat_of_nat)

text \<open>
  C3, amended. While fewer than \<open>2 ^ 64\<close> events have been built on a connection, the
  identifiers of its events are the decimal strings of 1, 2, 3, ... in the order of the
  messages that trigger them: the first is \<open>1\<close>, the numeric value of each is that of
  the one before plus one, the events of earlier messages come before those of later
  ones, and \<open>nextID\<close> is the number of events built so far, so it does not decrease.
\<close>

theorem event_ids:
  "length (events (pre @ post) newConn) < 2 ^ 64 \<Longrightarrow>
     map ID (events (pre @ post) newConn)
       = map formatDecimal [1..<Suc (length (events (pre @ post) newConn))]
   \<and> map (\<lambda>ev. decimalValue (ID ev)) (events (pre @ post) newConn)
       = [1..<Suc (length (events (pre @ post) newConn))]
   \<and> take 1 (map ID (events (pre @ post) newConn))
       = (if events (pre @ post) newConn = [] then [] else [''1''])
   \<and> events (pre @ post) newConn = events pre newConn @ events post (connAfter pre newConn)
   \<and> unat (nextID (connAfter pre newConn)) = length (events pre newConn)
   \<and> unat (nextID (connAfter (pre @ post) newConn)) = length (events (pre @ post) newConn)
   \<and> unat (nextID (connAfter pre newConn)) \<le> unat (nextID (connAfter (pre @ post) newConn))"
proof -
  assume small: "length (events (pre @ post) newConn) < 2 ^ 64"
  let ?evs = "events (pre @ post) newConn"
  have app: "?evs = events pre newConn @ events post (connAfter pre newConn)"
    by (rule events_append)
  then have "length (events pre newConn) \<le> length ?evs" by simp
  with small have small': "length (events pre newConn) < 2 ^ 64" by linarith
  have ids: "map ID ?evs = map formatDecimal [1..<Suc (length ?evs)]"
    using small by (rule ids_small)
  have "map (\<lambda>ev. decimalValue (ID ev)) ?evs = map decimalValue (map ID ?evs)" by simp
  also have "\<dots> = map (\<lambda>k. decimalValue (formatDecimal k)) [1..<Suc (length ?evs)]"
    unfolding ids by simp
  also have "\<dots> = [1..<Suc (length ?evs)]"
    by (simp add: decimalValue_formatDecimal)
  finally have nums: "map (\<lambda>ev. decimalValue (ID ev)) ?evs = [1..<Suc (length ?evs)]" .
  have one: "formatDecimal 1 = ''1''" by (simp add: formatDecimal.simps)
  have first: "take 1 (map ID ?evs) = (if ?evs = [] then [] else [''1''])"
  proof (cases "?evs")
    case Nil
    then show ?thesis by simp
  next
    case (Cons e es)
    then have "[1..<Suc (length ?evs)] = 1 # [Suc 1..<Suc (length ?evs)]"
      by (intro upt_conv_Cons) simp
    then have "map ID ?evs = formatDecimal 1 # map formatDecimal [Suc 1..<Suc (length ?evs)]"
      using ids by simp
    with one Cons show ?thesis by simp
  qed
  have n1: "unat (nextID (connAfter pre newConn)) = length (events pre newConn)"
    using small' by (rule nextID_small)
  have n2: "unat (nextID (connAfter (pre @ post) newConn)) = length ?evs"
    using small by (rule nextID_small)
  have "unat (nextID (connAfter pre newConn)) \<le> unat (nextID (connAfter (pre @ post) newConn))"
    unfolding n1 n2 using app by simp
  with ids nums first app n1 n2 show ?thesis by blast
qed

lemma events_replicate_query_length:
  "length (events (replicate n (QueryMsg q, now, r)) c) = n"
  by (induction n arbitrary: c) (simp_all add: simpleQueryEvent_eq)

lemma events_replicate_query_ID:
  assumes "i < n"
  shows "ID (events (replicate n (QueryMsg q, now, r)) newConn ! i) = FormatUint (of_nat (Suc i))"
proof -
  let ?evs = "events (replicate n (QueryMsg q, now, r)) newConn"
  have len: "length ?evs = n" by (rule events_replicate_query_length)
  have "ID (?evs ! i) = map ID ?evs ! i" using assms len by simp
  also have "\<dots> = map (\<lambda>k. FormatUint (nextID newConn + of_nat k)) [1..<Suc n] ! i"
    using ids_wrapping [of "replicate n (QueryMsg q, now, r)" newConn] len by simp
  also have "\<dots> = FormatUint (nextID newConn + of_nat (Suc i))"
    using assms by (simp del: upt_Suc)
  finally show ?thesis by (simp add: newConn_def)
qed

lemma connAfter_replicate_query_nextID:
  "nextID (connAfter (replicate n (QueryMsg q, now, r)) newConn) = of_nat n"
  by (simp add: nextID_connAfter events_replicate_query_length) (simp add: newConn_def)

lemma formatDecimal_max: "formatDecimal 18446744073709551615 = ''18446744073709551615''"
  by (simp add: formatDecimal.simps)

text \<open>
  C3, as stated, fails where the 64-bit counter wraps: on a connection that captures
  \<open>2 ^ 64\<close> simple queries, the event before the last has the identifier
  18446744073709551615 and the last one has the identifier 0, and \<open>nextID\<close> goes from
  18446744073709551615 to 0.
\<close>

theorem event_ids_counterexample:
  "ID (events (replicate 18446744073709551616 (QueryMsg [], 0, 0)) newConn ! 18446744073709551614)
     = ''18446744073709551615''
   \<and> ID (events (replicate 18446744073709551616 (QueryMsg [], 0, 0)) newConn ! 18446744073709551615)
     = ''0''
   \<and> decimalValue ''0'' < decimalValue ''18446744073709551615''
   \<and> nextID (connAfter (replicate 18446744073709551615 (QueryMsg [], 0, 0)) newConn)
     = 18446744073709551615
   \<and> nextID (connAfter (replicate 18446744073709551616 (QueryMsg [], 0, 0)) newConn) = 0"
proof -
  have a: "ID (events (replicate 18446744073709551616 (QueryMsg [], 0, 0)) newConn ! 18446744073709551614)
      = ''18446744073709551615''"
    by (subst events_replicate_query_ID) (simp_all add: FormatUint_def formatDecimal_max)
  have b: "ID (events (replicate 18446744073709551616 (QueryMsg [], 0, 0)) newConn ! 18446744073709551615)
      = ''0''"
    by (subst events_replicate_query_ID) (simp_all add: FormatUint_def formatDecimal.simps)
  have c: "decimalValue ''0'' < decimalValue ''18446744073709551615''"
    by (simp add: decimalValue_def digitValue_def)
  have d: "nextID (connAfter (replicate 18446744073709551615 (QueryMsg [], 0, 0)) newConn)
      = 18446744073709551615"
    by (simp add: connAfter_replicate_query_nextID)
  have e: "nextID (connAfter (replicate 18446744073709551616 (QueryMsg [], 0, 0)) newConn) = 0"
    by (simp add: connAfter_replicate_query_nextID)
  from a b c d e show ?thesis by blast
qed

text \<open>An instance of the amended statement: a Query, then a Parse and an Execute.\<close>

theorem event_ids_witness:
  "length (events ([(QueryMsg ''SELECT 1'', 0, 0)] @ [(ParseMsg [] ''SELECT 2'', 1, 0), (ExecuteMsg, 2, 0)]) newConn) < 2 ^ 64
   \<and> map ID (events ([(QueryMsg ''SELECT 1'', 0, 0)] @ [(ParseMsg [] ''SELECT 2'', 1, 0), (ExecuteMsg, 2, 0)]) newConn)
       = [''1'', ''2'']
   \<and> unat (nextID (connAfter [(QueryMsg ''SELECT 1'', 0, 0)] newConn)) = 1
   \<and> unat (nextID (connAfter ([(QueryMsg ''SELECT 1'', 0, 0)] @ [(ParseMsg [] ''SELECT 2'', 1, 0), (ExecuteMsg, 2, 0)]) newConn)) = 2"
proof -
  have len: "length (events ([(QueryMsg ''SELECT 1'', 0, 0)] @ [(ParseMsg [] ''SELECT 2'', 1, 0), (ExecuteMsg, 2, 0)]) newConn) = 2"
    by (simp add: simpleQueryEvent_eq executeEvent_eq)
  then have h: "length (events ([(QueryMsg ''SELECT 1'', 0, 0)] @ [(ParseMsg [] ''SELECT 2'', 1, 0), (ExecuteMsg, 2, 0)]) newConn) < 2 ^ 64"
    by simp
  have pre: "length (events [(QueryMsg ''SELECT 1'', 0, 0)] newConn) = 1"
    by (simp add: simpleQueryEvent_eq)
  have f: "map formatDecimal [1..<Suc 2] = [''1'', ''2'']"
    by (simp add: formatDecimal.simps upt_rec)
  note r = event_ids [OF h]
  have ids: "map ID (events ([(QueryMsg ''SELECT 1'', 0, 0)] @ [(ParseMsg [] ''SELECT 2'', 1, 0), (ExecuteMsg, 2, 0)]) newConn)
      = [''1'', ''2'']"
    using r [THEN conjunct1] unfolding len f .
  have n1: "unat (nextID (connAfter [(QueryMsg ''SELECT 1'', 0, 0)] newConn)) = 1"
    using r [THEN conjunct2, THEN conjunct2, THEN conjunct2, THEN conjunct2, THEN conjunct1]
    unfolding pre .
  have n2: "unat (nextID (connAfter ([(QueryMsg ''SELECT 1'', 0, 0)] @ [(ParseMsg [] ''SELECT 2'', 1, 0), (ExecuteMsg, 2, 0)]) newConn)) = 2"
    using r [THEN conjunct2, THEN conjunct2, THEN conjunct2, THEN conjunct2, THEN conjunct2, THEN conjunct1]
    unfolding len .
  from h ids n1 n2 show ?thesis by blast
qed

section \<open>The row count of a command tag\<close>

lemma unat_of_char: "unat (of_char c :: 8 word) = of_char c"
proof -
  have "(of_char c :: 8 word) = of_nat (of_char c)" by (simp add: of_nat_of_char)
  then have "unat (of_char c :: 8 word) = of_char c mod 256" by (simp add: unat_of_nat)
  then show ?thesis using nat_of_char_less_256 [of c] by simp
qed

lemma unat_ucast_8_64: "unat (ucast (d :: 8 word) :: 64 word) = unat d"
proof -
  have "unat d < 2 ^ 8" using unsigned_less [of d] by simp
  then have "unat d < 2 ^ 64" by simp
  then show ?thesis by (simp add: unsigned_ucast_eq take_bit_nat_eq_self)
qed

lemma unat_uintCutoff: "unat uintCutoff = 1844674407370955162"
  by (simp add: uintCutoff_def)

lemma unat_maxVal: "unat maxVal = 2 ^ 64 - 1"
  by (simp add: maxVal_def)

lemma not_above_maxVal: "\<not> maxVal < (x :: 64 word)"
proof -
  have "unat x < 2 ^ 64" using unsigned_less [of x] by simp
  then show ?thesis by (simp add: word_less_nat_alt unat_maxVal)
qed

text \<open>One digit of the loop of ParseUint, on the numbers the words stand for.\<close>

lemma digit_step:
  fixes n :: "64 word" and d :: "8 word"
  assumes d: "unat d < 10"
  shows "(uintCutoff \<le> n \<or> n * 10 + ucast d < n * 10 \<or> maxVal < n * 10 + ucast d)
           = (2 ^ 64 \<le> unat n * 10 + unat d)"
    and "unat n * 10 + unat d < 2 ^ 64 \<Longrightarrow> unat (n * 10 + ucast d) = unat n * 10 + unat d"
proof -
  have n: "unat n < 2 ^ 64" using unsigned_less [of n] by simp
  have ten: "unat (10 :: 64 word) = 10" by simp
  show "(uintCutoff \<le> n \<or> n * 10 + ucast d < n * 10 \<or> maxVal < n * 10 + ucast d)
           = (2 ^ 64 \<le> unat n * 10 + unat d)"
  proof (cases "uintCutoff \<le> n")
    case True
    then have "1844674407370955162 \<le> unat n" by (simp add: word_le_nat_alt unat_uintCutoff)
    then have "2 ^ 64 \<le> unat n * 10 + unat d" by simp
    with True show ?thesis by simp
  next
    case False
    then have small: "unat n < 1844674407370955162" by (simp add: word_le_nat_alt unat_uintCutoff)
    then have "unat n * unat (10 :: 64 word) < 2 ^ LENGTH(64)" by (simp add: ten)
    then have m: "unat (n * 10) = unat n * 10"
      using unat_mult_lem [of n 10] ten by simp
    have s: "unat (n * 10 + ucast d) = (unat n * 10 + unat d) mod 2 ^ 64"
      by (simp add: unat_word_ariths(1) m unat_ucast_8_64)
    show ?thesis
    proof (cases "2 ^ 64 \<le> unat n * 10 + unat d")
      case True
      from small d have "unat n * 10 + unat d < 2 * 2 ^ 64" by simp
      with True have "(unat n * 10 + unat d) mod 2 ^ 64 = unat n * 10 + unat d - 2 ^ 64"
        by (simp add: mod_if)
      with True d have "(unat n * 10 + unat d) mod 2 ^ 64 < unat n * 10" by simp
      then have "n * 10 + ucast d < n * 10" by (simp add: word_less_nat_alt s m)
      with True show ?thesis by simp
    next
      case no: False
      then have "(unat n * 10 + unat d) mod 2 ^ 64 = unat n * 10 + unat d" by simp
      then have "\<not> n * 10 + ucast d < n * 10" by (simp add: word_less_nat_alt s m)
      with no False show ?thesis by (simp add: not_above_maxVal)
    qed
  qed
  show "unat (n * 10 + ucast d) = unat n * 10 + unat d" if ok: "unat n * 10 + unat d < 2 ^ 64"
  proof -
    from ok have "unat n * unat (10 :: 64 word) < 2 ^ LENGTH(64)" by (simp add: ten)
    then have m: "unat (n * 10) = unat n * 10"
      using unat_mult_lem [of n 10] ten by simp
    have "unat (n * 10 + ucast d) = (unat n * 10 + unat d) mod 2 ^ 64"
      by (simp add: unat_word_ariths(1) m unat_ucast_8_64)
    with ok show ?thesis by simp
  qed
qed

lemma digit_word:
  "(0x30 \<le> (of_char c :: 8 word) \<and> (of_char c :: 8 word) \<le> 0x39) = isDigit c"
  by (simp add: word_le_nat_alt unat_of_char isDigit_def)

lemma digit_word_value:
  assumes "isDigit c"
  shows "unat ((of_char c :: 8 word) - 0x30) = digitValue c" and "digitValue c < 10"
proof -
  from assms have "(0x30 :: 8 word) \<le> of_char c" using digit_word [of c] by simp
  then have "unat ((of_char c :: 8 word) - 0x30) = unat (of_char c :: 8 word) - unat (0x30 :: 8 word)"
    by (rule unat_sub)
  then show "unat ((of_char c :: 8 word) - 0x30) = digitValue c"
    by (simp add: unat_of_char digitValue_def)
  from assms show "digitValue c < 10" by (auto simp: isDigit_def digitValue_def)
qed

lemma letter_word:
  fixes w :: "8 word"
  assumes "0x61 \<le> w" "w \<le> 0x7A"
  shows "10 \<le> w - 0x61 + 10"
proof -
  from assms have a: "97 \<le> unat w" "unat w \<le> 122" by (simp_all add: word_le_nat_alt)
  from assms(1) have "unat (w - 0x61) = unat w - unat (0x61 :: 8 word)" by (rule unat_sub)
  then have s: "unat (w - 0x61) = unat w - 97" by simp
  have "unat (w - 0x61 + 10) = (unat (w - 0x61) + unat (10 :: 8 word)) mod 2 ^ LENGTH(8)"
    by (rule unat_word_ariths(1))
  with s a have "unat (w - 0x61 + 10) = unat w - 87" by simp
  with a show ?thesis by (simp add: word_le_nat_alt)
qed

lemma foldl_digits_mono: "a \<le> foldl (\<lambda>a c. a * 10 + digitValue c) a p"
proof (induction p arbitrary: a)
  case Nil
  then show ?case by simp
next
  case (Cons c p)
  have "a \<le> a * 10 + digitValue c" by simp
  also have "\<dots> \<le> foldl (\<lambda>a c. a * 10 + digitValue c) (a * 10 + digitValue c) p" by (rule Cons.IH)
  finally show ?case by simp
qed

lemma parseUintLoop_value:
  "parseUintLoop cs n =
     (if 2 ^ 64 \<le> foldl (\<lambda>a c. a * 10 + digitValue c) (unat n) (takeWhile isDigit cs)
      then (maxVal, Some ErrRange)
      else if takeWhile isDigit cs = cs
      then (of_nat (foldl (\<lambda>a c. a * 10 + digitValue c) (unat n) (takeWhile isDigit cs)), None)
      else (0, Some ErrSyntax))"
proof (induction cs arbitrary: n)
  case Nil
  have "unat n < 2 ^ 64" using unsigned_less [of n] by simp
  then show ?case by simp
next
  case (Cons ch cs)
  let ?c = "of_char ch :: 8 word"
  have n: "unat n < 2 ^ 64" using unsigned_less [of n] by simp
  show ?case
  proof (cases "isDigit ch")
    case True
    let ?d = "?c - 0x30"
    have d: "unat ?d = digitValue ch" "digitValue ch < 10" using digit_word_value [OF True] by simp_all
    then have d10: "\<not> 10 \<le> ?d" by (simp add: word_le_nat_alt)
    have rng: "(0x30 \<le> ?c \<and> ?c \<le> 0x39)" using digit_word [of ch] True by simp
    have stop: "(uintCutoff \<le> n \<or> n * 10 + ucast ?d < n * 10 \<or> maxVal < n * 10 + ucast ?d)
        = (2 ^ 64 \<le> unat n * 10 + digitValue ch)"
      using digit_step(1) [of ?d n] d by simp
    show ?thesis
    proof (cases "2 ^ 64 \<le> unat n * 10 + digitValue ch")
      case over: True
      have "unat n * 10 + digitValue ch
          \<le> foldl (\<lambda>a c. a * 10 + digitValue c) (unat n * 10 + digitValue ch) (takeWhile isDigit cs)"
        by (rule foldl_digits_mono)
      with over have big: "2 ^ 64 \<le> foldl (\<lambda>a c. a * 10 + digitValue c) (unat n * 10 + digitValue ch) (takeWhile isDigit cs)"
        by (rule order_trans)
      from stop over have "uintCutoff \<le> n \<or> n * 10 + ucast ?d < n * 10 \<or> maxVal < n * 10 + ucast ?d"
        by simp
      then have "parseUintLoop (ch # cs) n = (maxVal, Some ErrRange)"
        using rng d10 by (auto simp: Let_def)
      with big True show ?thesis by simp
    next
      case ok: False
      then have u: "unat (n * 10 + ucast ?d) = unat n * 10 + digitValue ch"
        using digit_step(2) [of ?d n] d by simp
      from stop ok have "\<not> (uintCutoff \<le> n \<or> n * 10 + ucast ?d < n * 10 \<or> maxVal < n * 10 + ucast ?d)"
        by simp
      then have "parseUintLoop (ch # cs) n = parseUintLoop cs (n * 10 + ucast ?d)"
        using rng d10 by (auto simp: Let_def)
      then show ?thesis using True by (simp add: Cons.IH u)
    qed
  next
    case False
    then have rng: "\<not> (0x30 \<le> ?c \<and> ?c \<le> 0x39)" using digit_word [of ch] by simp
    have "parseUintLoop (ch # cs) n = (0, Some ErrSyntax)"
    proof (cases "0x61 \<le> lower ?c \<and> lower ?c \<le> 0x7A")
      case True
      then have "10 \<le> lower ?c - 0x61 + 10" using letter_word [of "lower ?c"] by simp
      with rng True show ?thesis by (auto simp: Let_def)
    next
      case no: False
      with rng show ?thesis by (auto simp: Let_def)
    qed
    with False n show ?thesis by simp
  qed
qed

lemma SplitSpace_nonempty: "SplitSpace s \<noteq> []"
  by (induction s) (auto split: list.splits)

lemma SplitSpace_no_space: "CHR '' '' \<notin> set s \<Longrightarrow> SplitSpace s = [s]"
  by (induction s) auto

lemma SplitSpace_space: "CHR '' '' \<in> set s \<Longrightarrow> tl (SplitSpace s) \<noteq> []"
proof (induction s)
  case Nil
  then show ?case by simp
next
  case (Cons c cs)
  show ?case
  proof (cases "c = CHR '' ''")
    case True
    then show ?thesis by (simp add: SplitSpace_nonempty)
  next
    case False
    with Cons.prems have "CHR '' '' \<in> set cs" by simp
    then have "tl (SplitSpace cs) \<noteq> []" by (rule Cons.IH)
    with False show ?thesis by (auto split: list.splits)
  qed
qed

lemma lastToken_Cons:
  "lastToken (c # cs) = (if CHR '' '' \<in> set cs then lastToken cs else if c = CHR '' '' then cs else c # cs)"
proof (cases "CHR '' '' \<in> set cs")
  case True
  then have "CHR '' '' \<in> set (rev cs)" by simp
  then have "takeWhile (\<lambda>c. c \<noteq> CHR '' '') (rev cs @ [c]) = takeWhile (\<lambda>c. c \<noteq> CHR '' '') (rev cs)"
    by (rule takeWhile_append1) simp
  with True show ?thesis by (simp add: lastToken_def)
next
  case False
  then have all: "\<And>x. x \<in> set (rev cs) \<Longrightarrow> x \<noteq> CHR '' ''" by auto
  have "takeWhile (\<lambda>c. c \<noteq> CHR '' '') (rev cs @ [c]) = rev cs @ takeWhile (\<lambda>c. c \<noteq> CHR '' '') [c]"
    using all by (rule takeWhile_append2)
  then have "lastToken (c # cs) = rev (takeWhile (\<lambda>c. c \<noteq> CHR '' '') [c]) @ cs"
    by (simp add: lastToken_def)
  with False show ?thesis by simp
qed

lemma last_SplitSpace: "last (SplitSpace s) = lastToken s"
proof (induction s)
  case Nil
  then show ?case by (simp add: lastToken_def)
next
  case (Cons c cs)
  show ?case
  proof (cases "CHR '' '' \<in> set cs")
    case True
    then have t: "tl (SplitSpace cs) \<noteq> []" by (rule SplitSpace_space)
    then obtain p q ps where sp: "SplitSpace cs = p # q # ps"
      by (cases "SplitSpace cs"; cases "tl (SplitSpace cs)") auto
    then have "last (SplitSpace (c # cs)) = last (SplitSpace cs)" by simp
    with True Cons.IH show ?thesis by (simp add: lastToken_Cons)
  next
    case False
    then have "SplitSpace cs = [cs]" by (rule SplitSpace_no_space)
    with False show ?thesis by (simp add: lastToken_Cons)
  qed
qed

lemma parseRowsAffected_last: "parseRowsAffected tag = fst (ParseInt (lastToken tag))"
proof -
  have "SplitSpace tag \<noteq> []" by (rule SplitSpace_nonempty)
  then have "SplitSpace tag ! (length (SplitSpace tag) - 1) = last (SplitSpace tag)"
    by (simp add: last_conv_nth)
  then show ?thesis
    by (simp add: parseRowsAffected_def Let_def SplitSpace_nonempty last_SplitSpace)
qed

lemma cutoff_facts:
  "sint (push_bit 63 1 - 1 :: 64 word) = 2 ^ 63 - 1"
  "sint (- push_bit 63 1 :: 64 word) = - (2 ^ 63)"
  "(push_bit 63 1 :: 64 word) \<le> maxVal"
  "(push_bit 63 1 :: 64 word) < maxVal"
  "unat (push_bit 63 1 :: 64 word) = 2 ^ 63"
  by (simp_all add: maxVal_def)

lemma sint_of_nat_small:
  assumes "v < 2 ^ 63"
  shows "sint (of_nat v :: 64 word) = int v"
proof -
  have "sint (of_nat v :: 64 word) = signed_take_bit 63 (int v)"
    by (simp add: signed_of_nat)
  also have "\<dots> = int v"
    using assms by (intro signed_take_bit_int_eq_self) simp_all
  finally show ?thesis .
qed

lemma sint_neg_of_nat_small:
  assumes "v \<le> 2 ^ 63"
  shows "sint (- of_nat v :: 64 word) = - int v"
proof -
  have "(- of_nat v :: 64 word) = word_of_int (- int v)" by simp
  then have "sint (- of_nat v :: 64 word) = signed_take_bit 63 (- int v)"
    by (simp only: sint_sbintrunc') simp
  also have "\<dots> = - int v"
    using assms by (intro signed_take_bit_int_eq_self) simp_all
  finally show ?thesis .
qed

lemma cutoff_compare:
  assumes "v < 2 ^ 64"
  shows "((push_bit 63 1 :: 64 word) \<le> of_nat v) = (2 ^ 63 \<le> v)"
    and "((push_bit 63 1 :: 64 word) < of_nat v) = (2 ^ 63 < v)"
proof -
  from assms have "unat (of_nat v :: 64 word) = v" by (simp add: unat_of_nat)
  then show "((push_bit 63 1 :: 64 word) \<le> of_nat v) = (2 ^ 63 \<le> v)"
    and "((push_bit 63 1 :: 64 word) < of_nat v) = (2 ^ 63 < v)"
    by (simp_all only: word_le_nat_alt word_less_nat_alt cutoff_facts(5))
qed

lemma ParseUint_value:
  "ParseUint s =
     (if s = [] then (0, Some ErrSyntax)
      else if 2 ^ 64 \<le> decimalValue (takeWhile isDigit s) then (maxVal, Some ErrRange)
      else if takeWhile isDigit s = s then (of_nat (decimalValue (takeWhile isDigit s)), None)
      else (0, Some ErrSyntax))"
  by (simp add: ParseUint_def parseUintLoop_value decimalValue_def)

lemma int_pow_le: "((2 :: int) ^ k \<le> int v) = (2 ^ k \<le> v)"
  by (metis of_nat_le_iff of_nat_numeral of_nat_power)

lemma int_pow_less: "((2 :: int) ^ k < int v) = (2 ^ k < v)"
  by (metis of_nat_less_iff of_nat_numeral of_nat_power)

lemma clamp_word:
  fixes e1 e2 :: "NumError option"
  assumes v64: "v < 2 ^ 64"
  shows "sint (fst (if \<not> neg \<and> push_bit 63 1 \<le> (of_nat v :: 64 word) then (push_bit 63 1 - 1 :: 64 word, e1)
               else if neg \<and> push_bit 63 1 < (of_nat v :: 64 word) then (- push_bit 63 1, e1)
               else (if neg then - of_nat v else of_nat v, e2)))
         = (if neg then max (- (2 ^ 63)) (- int v) else min (2 ^ 63 - 1) (int v))"
proof (cases neg)
  case neg: True
  show ?thesis
  proof (cases "2 ^ 63 < v")
    case True
    then have "(2 :: int) ^ 63 < int v" by (simp only: int_pow_less)
    then have "max (- (2 ^ 63)) (- int v) = - (2 ^ 63)" by simp
    moreover have "sint (- push_bit 63 1 :: 64 word) = - (2 ^ 63)" by (rule cutoff_facts)
    ultimately show ?thesis
      using neg True by (simp only: cutoff_compare [OF v64] if_True if_False simp_thms fst_conv)
  next
    case False
    then have le: "v \<le> 2 ^ 63" by simp
    then have "int v \<le> 2 ^ 63" using int_pow_less [of 63 v] by linarith
    then have "max (- (2 ^ 63)) (- int v) = - int v" by simp
    moreover note sint_neg_of_nat_small [OF le]
    ultimately show ?thesis
      using neg False by (simp only: cutoff_compare [OF v64] if_True if_False simp_thms fst_conv)
  qed
next
  case pos: False
  show ?thesis
  proof (cases "2 ^ 63 \<le> v")
    case True
    then have "(2 :: int) ^ 63 \<le> int v" by (simp only: int_pow_le)
    then have "min (2 ^ 63 - 1) (int v) = 2 ^ 63 - 1" by simp
    moreover have "sint (push_bit 63 1 - 1 :: 64 word) = 2 ^ 63 - 1" by (rule cutoff_facts)
    ultimately show ?thesis
      using pos True by (simp only: cutoff_compare [OF v64] if_True if_False simp_thms fst_conv)
  next
    case False
    then have lt: "v < 2 ^ 63" by simp
    then have "int v < 2 ^ 63" using int_pow_le [of 63 v] by linarith
    then have "min (2 ^ 63 - 1) (int v) = int v" by simp
    moreover note sint_of_nat_small [OF lt]
    ultimately show ?thesis
      using pos False by (simp only: cutoff_compare [OF v64] if_True if_False simp_thms fst_conv)
  qed
qed

lemma clamp_maxVal:
  fixes e1 e2 :: "NumError option"
  shows "sint (fst (if \<not> neg \<and> push_bit 63 1 \<le> maxVal then (push_bit 63 1 - 1 :: 64 word, e1)
               else if neg \<and> push_bit 63 1 < maxVal then (- push_bit 63 1, e1)
               else (if neg then - maxVal else maxVal, e2)))
         = (if neg then - (2 ^ 63) else 2 ^ 63 - 1)"
  by (simp add: maxVal_def)

lemma ParseInt_value:
  assumes ne: "s0 \<noteq> []"
  shows "sint (fst (ParseInt s0)) =
     (let neg = (hd s0 = CHR ''-'');
          ds = (if hd s0 = CHR ''+'' \<or> hd s0 = CHR ''-'' then tl s0 else s0);
          p = takeWhile isDigit ds;
          v = int (decimalValue p)
      in if ds = [] then 0
         else if p = ds then (if neg then max (- (2 ^ 63)) (- v) else min (2 ^ 63 - 1) v)
         else if 2 ^ 64 \<le> v then (if neg then - (2 ^ 63) else 2 ^ 63 - 1)
         else 0)"
proof -
  define neg where "neg = (hd s0 = CHR ''-'')"
  define ds where "ds = (if hd s0 = CHR ''+'' \<or> hd s0 = CHR ''-'' then tl s0 else s0)"
  define v where "v = decimalValue (takeWhile isDigit ds)"
  have unfold: "ParseInt s0 =
      (case ParseUint ds of (un, err) \<Rightarrow>
         if err \<noteq> None \<and> err \<noteq> Some ErrRange then (0, err)
         else if \<not> neg \<and> push_bit 63 1 \<le> un then (push_bit 63 1 - 1, Some ErrRange)
         else if neg \<and> push_bit 63 1 < un then (- push_bit 63 1, Some ErrRange)
         else (if neg then - un else un, None))"
    using ne by (simp only: ParseInt_def Let_def neg_def ds_def if_False)
  have goal: "sint (fst (ParseInt s0)) =
      (if ds = [] then 0
       else if takeWhile isDigit ds = ds
       then (if neg then max (- (2 ^ 63)) (- int v) else min (2 ^ 63 - 1) (int v))
       else if 2 ^ 64 \<le> int v then (if neg then - (2 ^ 63) else 2 ^ 63 - 1)
       else 0)"
  proof (cases "ds = []")
    case True
    then have "ParseUint ds = (0, Some ErrSyntax)" by (simp add: ParseUint_value)
    with True show ?thesis unfolding unfold by simp
  next
    case ds: False
    show ?thesis
    proof (cases "2 ^ 64 \<le> v")
      case True
      then have u: "ParseUint ds = (maxVal, Some ErrRange)"
        using ds by (simp add: ParseUint_value v_def)
      have big: "(2 :: int) ^ 64 \<le> int v" using True int_pow_le [of 64 v] by blast
      then have "max (- (2 ^ 63)) (- int v) = - (2 ^ 63)" "min (2 ^ 63 - 1) (int v) = 2 ^ 63 - 1"
        by simp_all
      moreover have "sint (fst (ParseInt s0)) = (if neg then - (2 ^ 63) else 2 ^ 63 - 1)"
        unfolding unfold u using clamp_maxVal [of neg "Some ErrRange" None] by simp
      ultimately show ?thesis using ds big by simp
    next
      case small: False
      then have v64: "v < 2 ^ 64" by simp
      have nbig: "\<not> (2 :: int) ^ 64 \<le> int v" using small int_pow_le [of 64 v] by blast
      show ?thesis
      proof (cases "takeWhile isDigit ds = ds")
        case True
        then have u: "ParseUint ds = (of_nat v, None)"
          using ds small by (simp add: ParseUint_value v_def)
        have "sint (fst (ParseInt s0)) = (if neg then max (- (2 ^ 63)) (- int v) else min (2 ^ 63 - 1) (int v))"
          unfolding unfold u using clamp_word [OF v64, of neg "Some ErrRange" None] by simp
        with ds True show ?thesis by simp
      next
        case False
        then have u: "ParseUint ds = (0, Some ErrSyntax)"
          using ds small by (simp add: ParseUint_value v_def)
        show ?thesis unfolding unfold u using ds False nbig by auto
      qed
    qed
  qed
  show ?thesis using goal unfolding Let_def neg_def ds_def v_def .
qed

text \<open>
  C10, amended. \<open>parseRowsAffected\<close> is total. Let the token be what follows the last
  space of the tag, and let the digits be the token without one leading sign. When the
  digits are empty, the result is 0. When they are all decimal digits, the result is
  their value with the sign, clamped to the 64-bit signed range: exactly the value when
  the token parses as an \<^verbatim>\<open>int64\<close>, and the nearest bound when it is out of range. When
  a character that is not a digit is met, the result is 0, unless the digits before it
  already exceed \<open>2 ^ 64 - 1\<close>, in which case it is the bound of the sign.
\<close>

theorem parseRowsAffected_value:
  "sint (parseRowsAffected tag) =
     (let tok = lastToken tag;
          neg = (tok \<noteq> [] \<and> hd tok = CHR ''-'');
          ds = (if tok \<noteq> [] \<and> (hd tok = CHR ''+'' \<or> hd tok = CHR ''-'') then tl tok else tok);
          p = takeWhile isDigit ds;
          v = int (decimalValue p)
      in if ds = [] then 0
         else if p = ds then (if neg then max (- (2 ^ 63)) (- v) else min (2 ^ 63 - 1) v)
         else if 2 ^ 64 \<le> v then (if neg then - (2 ^ 63) else 2 ^ 63 - 1)
         else 0)"
proof (cases "lastToken tag = []")
  case True
  then show ?thesis by (simp add: parseRowsAffected_last ParseInt_def)
next
  case False
  then show ?thesis
    using ParseInt_value [OF False] by (simp add: parseRowsAffected_last Let_def)
qed

text \<open>
  C10, as stated, fails: the token 9223372036854775808 does not parse as a signed 64-bit
  integer (\<open>ParseInt\<close> reports a range error), and the result is 9223372036854775807,
  not 0.
\<close>

theorem parseRowsAffected_counterexample:
  "snd (ParseInt ''9223372036854775808'') = Some ErrRange
   \<and> sint (parseRowsAffected ''SELECT 9223372036854775808'') = 9223372036854775807"
  by (simp add: parseRowsAffected_def ParseInt_def ParseUint_def uintCutoff_def maxVal_def lower_def Let_def)

section \<open>The startup relay returns on ReadyForQuery, ErrorResponse or an error\<close>

lemma authLoop_iter:
  "authLoop e w = (case authIter e w of Inl r \<Rightarrow> Some r | Inr w' \<Rightarrow> authLoop e w')"
  by (subst authLoop.simps)
    (simp add: authIter_def Let_def split: sum.splits BackendMessage.splits)

lemma body_iter:
  "(case recvUpstream e (received w) of
      Inl err \<Rightarrow> Some (Some (Wrap ''postgres: receive auth'' err), w)
    | Inr msg \<Rightarrow>
        (let w = w\<lparr>received := Suc (received w)\<rparr> in
         case encodeAndWrite (writeClient e) (toClient w) (encodeBackend e msg) of
           Inl err \<Rightarrow> Some (Some (Wrap ''postgres: send auth'' err), w)
         | Inr out \<Rightarrow>
             (let w = w\<lparr>toClient := out\<rparr> in
              case msg of
                ReadyForQuery st \<Rightarrow> Some (None, w)
              | ErrorResponse body \<Rightarrow> Some (Some (New ''postgres: auth error from upstream''), w)
              | CommandComplete tag \<Rightarrow> f e w
              | OtherBackend body \<Rightarrow> f e w)))
   = (case authIter e w of Inl r \<Rightarrow> Some r | Inr w' \<Rightarrow> f e w')"
  by (simp add: authIter_def Let_def split: sum.splits BackendMessage.splits)

lemma authLoop_Some_induct:
  assumes ret: "authLoop e w = Some r"
    and stop: "\<And>w r. authIter e w = Inl r \<Longrightarrow> P w r"
    and continue: "\<And>w w' r. authIter e w = Inr w' \<Longrightarrow> P w' r \<Longrightarrow> P w r"
  shows "P w r"
proof -
  have "e = e \<longrightarrow> P w r"
    apply (rule authLoop.raw_induct [where P = "\<lambda>e' w r. e' = e \<longrightarrow> P w r", OF _ ret])
    subgoal premises prems for f e' w r
    proof
      assume e: "e' = e"
      from prems(2) have c: "(case authIter e w of Inl r \<Rightarrow> Some r | Inr w' \<Rightarrow> f e w') = Some r"
        unfolding body_iter e .
      show "P w r"
      proof (cases "authIter e w")
        case (Inl r')
        with c have "r' = r" by simp
        with Inl stop show ?thesis by simp
      next
        case (Inr w')
        with c have "f e w' = Some r" by simp
        then have "P w' r" using prems(1) by simp
        with Inr continue show ?thesis by blast
      qed
    qed
    done
  then show ?thesis by simp
qed

lemma forwardedBytes_length: "length (forwardedBytes e k) = k"
  by (simp add: forwardedBytes_def)

lemma forwardedBytes_Suc:
  "forwardedMsg e k = Some (msg, b) \<Longrightarrow> forwardedBytes e (Suc k) = forwardedBytes e k @ [b]"
  by (simp add: forwardedBytes_def)

lemma stateAt_inject: "stateAt up e k = stateAt up e k' \<Longrightarrow> k = k'"
  by (simp add: stateAt_def)

lemma iter_forwarded:
  assumes "forwardedMsg e k = Some (msg, b)"
  shows "authIter e (stateAt up e k) =
     (case msg of
        ReadyForQuery st \<Rightarrow> Inl (None, stateAt up e (Suc k))
      | ErrorResponse body \<Rightarrow> Inl (Some (New ''postgres: auth error from upstream''), stateAt up e (Suc k))
      | CommandComplete tag \<Rightarrow> Inr (stateAt up e (Suc k))
      | OtherBackend body \<Rightarrow> Inr (stateAt up e (Suc k)))"
proof -
  from assms have r: "recvUpstream e k = Inr msg" and en: "encodeBackend e msg = Inr b"
    and wr: "writeClient e k = None"
    by (auto simp: forwardedMsg_def split: sum.splits option.splits)
  have s: "forwardedBytes e (Suc k) = forwardedBytes e k @ [b]"
    using assms by (rule forwardedBytes_Suc)
  show ?thesis
    using r en wr s
    by (cases msg)
      (simp_all add: authIter_def stateAt_def encodeAndWrite_def forwardedBytes_length Let_def)
qed

lemma iter_failed:
  assumes "forwardedMsg e k = None"
  shows "\<exists>err w. authIter e (stateAt up e k) = Inl (Some err, w)
           \<and> toUpstream w = up \<and> toClient w = forwardedBytes e k"
  using assms
  by (auto simp: forwardedMsg_def authIter_def stateAt_def encodeAndWrite_def
      forwardedBytes_length Let_def split: sum.splits option.splits)

lemma iter_passedOn:
  "passedOn e k \<Longrightarrow> authIter e (stateAt up e k) = Inr (stateAt up e (Suc k))"
  by (auto simp: passedOn_def iter_forwarded split: option.splits BackendMessage.splits)

lemma relayed_Suc: "relayed e (Suc n) = (relayed e n \<and> passedOn e n)"
  by (simp add: relayed_def)

lemma loop_relayed:
  "relayed e n \<Longrightarrow> authLoop e (stateAt up e 0) = authLoop e (stateAt up e n)"
proof (induction n)
  case 0
  then show ?case by simp
next
  case (Suc n)
  then have "relayed e n" "passedOn e n" by (simp_all add: relayed_Suc)
  then have "authLoop e (stateAt up e n) = authLoop e (stateAt up e (Suc n))"
    by (subst authLoop_iter) (simp add: iter_passedOn)
  with Suc.IH \<open>relayed e n\<close> show ?case by simp
qed

lemma loop_forever:
  assumes all: "\<And>n. relayed e n"
  shows "authLoop e (stateAt up e k) = None"
proof (rule ccontr)
  assume "authLoop e (stateAt up e k) \<noteq> None"
  then obtain r where ret: "authLoop e (stateAt up e k) = Some r" by auto
  have p: "passedOn e j" for j using all [of "Suc j"] by (simp add: relayed_Suc)
  have "\<forall>j. stateAt up e k \<noteq> stateAt up e j"
  proof (rule authLoop_Some_induct [OF ret, where P = "\<lambda>w r. \<forall>j. w \<noteq> stateAt up e j"])
    fix w r
    assume "authIter e w = Inl r"
    then show "\<forall>j. w \<noteq> stateAt up e j" using p by (auto simp: iter_passedOn)
  next
    fix w w' r
    assume i: "authIter e w = Inr w'" and ih: "\<forall>j. w' \<noteq> stateAt up e j"
    show "\<forall>j. w \<noteq> stateAt up e j"
    proof (intro allI notI)
      fix j assume "w = stateAt up e j"
      with i p [of j] have "w' = stateAt up e (Suc j)" by (simp add: iter_passedOn)
      with ih show False by blast
    qed
  qed
  then show False by blast
qed

lemma first_stop:
  assumes "\<not> relayed e m"
  shows "\<exists>n. relayed e n \<and> \<not> passedOn e n"
proof -
  define n where "n = (LEAST n. \<not> relayed e n)"
  have bad: "\<not> relayed e n" unfolding n_def using assms by (rule LeastI)
  have "n \<noteq> 0" using bad by (cases "n = 0") (auto simp: relayed_def)
  then obtain n' where n': "n = Suc n'" by (cases n) auto
  have "relayed e n'"
  proof (rule ccontr)
    assume "\<not> relayed e n'"
    then have "n \<le> n'" unfolding n_def by (rule Least_le)
    with n' show False by simp
  qed
  with bad n' show ?thesis by (auto simp: relayed_Suc)
qed

lemma stop_unique:
  assumes "relayed e n" "\<not> passedOn e n" "relayed e m" "\<not> passedOn e m"
  shows "n = m"
proof -
  have later: "passedOn e i" if "relayed e j" "i < j" for i j
    using that by (simp add: relayed_def list_all_iff)
  show ?thesis
  proof (rule ccontr)
    assume "n \<noteq> m"
    then consider "n < m" | "m < n" by linarith
    then show False
    proof cases
      case 1 with later [OF assms(3)] assms(2) show ?thesis by blast
    next
      case 2 with later [OF assms(1)] assms(4) show ?thesis by blast
    qed
  qed
qed

lemma iter_failed_exact:
  assumes "forwardedMsg e k = None"
  shows "\<exists>err. authIter e (stateAt up e k) =
      Inl (Some err, \<lparr>toUpstream = up, toClient = forwardedBytes e k,
             received = (case recvUpstream e k of Inl err \<Rightarrow> k | Inr msg \<Rightarrow> Suc k)\<rparr>)"
  using assms
  by (auto simp: forwardedMsg_def authIter_def stateAt_def encodeAndWrite_def
      forwardedBytes_length Let_def split: sum.splits option.splits)

lemma relayStartup_not_sent:
  "startupSent e = None \<Longrightarrow>
     \<exists>err. relayStartup e = Some (Some err, \<lparr>toUpstream = [], toClient = [], received = 0\<rparr>)"
  by (auto simp: startupSent_def relayStartup_def encodeAndWrite_def Let_def
      split: sum.splits option.splits)

lemma relayStartup_sent:
  "startupSent e = Some sb \<Longrightarrow> relayStartup e = authLoop e (stateAt [sb] e 0)"
  by (auto simp: startupSent_def relayStartup_def encodeAndWrite_def Let_def stateAt_def
      forwardedBytes_def split: sum.splits option.splits)

lemma relayStartup_stops:
  assumes "startupSent e = Some sb" "relayed e n" "authIter e (stateAt [sb] e n) = Inl r"
  shows "relayStartup e = Some r"
proof -
  have "relayStartup e = authLoop e (stateAt [sb] e n)"
    using assms(1,2) by (simp add: relayStartup_sent loop_relayed [symmetric])
  also have "\<dots> = Some r" using assms(3) by (subst authLoop_iter) simp
  finally show ?thesis .
qed

lemma relayStartup_ready:
  assumes "startupSent e = Some sb" "relayed e n" "forwardedMsg e n = Some (ReadyForQuery st, b)"
  shows "relayStartup e =
     Some (None, \<lparr>toUpstream = [sb], toClient = forwardedBytes e n @ [b], received = Suc n\<rparr>)"
proof -
  have "authIter e (stateAt [sb] e n) = Inl (None, stateAt [sb] e (Suc n))"
    using iter_forwarded [OF assms(3)] by simp
  then have "relayStartup e = Some (None, stateAt [sb] e (Suc n))"
    by (rule relayStartup_stops [OF assms(1,2)])
  then show ?thesis by (simp add: stateAt_def forwardedBytes_Suc [OF assms(3)])
qed

lemma relayStartup_error_response:
  assumes "startupSent e = Some sb" "relayed e n" "forwardedMsg e n = Some (ErrorResponse body, b)"
  shows "relayStartup e =
     Some (Some (New ''postgres: auth error from upstream''),
           \<lparr>toUpstream = [sb], toClient = forwardedBytes e n @ [b], received = Suc n\<rparr>)"
proof -
  have "authIter e (stateAt [sb] e n) =
      Inl (Some (New ''postgres: auth error from upstream''), stateAt [sb] e (Suc n))"
    using iter_forwarded [OF assms(3)] by simp
  then have "relayStartup e =
      Some (Some (New ''postgres: auth error from upstream''), stateAt [sb] e (Suc n))"
    by (rule relayStartup_stops [OF assms(1,2)])
  then show ?thesis by (simp add: stateAt_def forwardedBytes_Suc [OF assms(3)])
qed

lemma relayStartup_io_error:
  assumes "startupSent e = Some sb" "relayed e n" "forwardedMsg e n = None"
  shows "\<exists>err. relayStartup e =
     Some (Some err, \<lparr>toUpstream = [sb], toClient = forwardedBytes e n,
             received = (case recvUpstream e n of Inl err \<Rightarrow> n | Inr msg \<Rightarrow> Suc n)\<rparr>)"
  using iter_failed_exact [OF assms(3), of "[sb]"] relayStartup_stops [OF assms(1,2)] by blast

lemma relayStartup_forever:
  assumes "startupSent e = Some sb" "\<And>n. relayed e n"
  shows "relayStartup e = None"
  using assms by (simp add: relayStartup_sent loop_forever)

lemma relayStartup_cases:
  "startupSent e = None
   \<or> (\<exists>sb. startupSent e = Some sb \<and> (\<forall>n. relayed e n))
   \<or> (\<exists>sb n. startupSent e = Some sb \<and> relayed e n \<and> forwardedMsg e n = None)
   \<or> (\<exists>sb n st b. startupSent e = Some sb \<and> relayed e n \<and> forwardedMsg e n = Some (ReadyForQuery st, b))
   \<or> (\<exists>sb n body b. startupSent e = Some sb \<and> relayed e n \<and> forwardedMsg e n = Some (ErrorResponse body, b))"
proof (cases "startupSent e")
  case None
  then show ?thesis by simp
next
  case (Some sb)
  show ?thesis
  proof (cases "\<forall>n. relayed e n")
    case True
    with Some show ?thesis by simp
  next
    case False
    then obtain m where "\<not> relayed e m" by blast
    then obtain n where n: "relayed e n" "\<not> passedOn e n" using first_stop by blast
    show ?thesis
    proof (cases "forwardedMsg e n")
      case None
      with Some n show ?thesis by blast
    next
      case fw: (Some mb)
      obtain msg b where mb: "mb = (msg, b)" by (cases mb)
      from n(2) fw mb have "isTerminal msg" by (simp add: passedOn_def)
      then consider st where "msg = ReadyForQuery st" | body where "msg = ErrorResponse body"
        by (cases msg) auto
      then show ?thesis
      proof cases
        case 1
        with Some n fw mb show ?thesis by blast
      next
        case 2
        with Some n fw mb show ?thesis by blast
      qed
    qed
  qed
qed

text \<open>
  C7. The startup relay first writes the encoded startup message to upstream, then
  receives backend messages one at a time and writes each, encoded, to the client.
  \<^item> It returns success exactly when, after messages that were all forwarded and were
    neither ReadyForQuery nor ErrorResponse, a ReadyForQuery is received and forwarded;
    the client has then been sent every message up to and including the ReadyForQuery.
  \<^item> It returns an error exactly when the startup message could not be received or
    forwarded, or a backend message could not be received or forwarded, or an
    ErrorResponse was received and forwarded; in the last case the bytes of the
    ErrorResponse are the last ones written to the client.
  \<^item> It does not return exactly when the startup message was forwarded and every
    backend message is forwarded and is neither of the two.
\<close>

theorem relayStartup_outcome:
  "(relayStartup e = Some (None, w)) =
     (\<exists>sb n st b. startupSent e = Some sb \<and> relayed e n
        \<and> forwardedMsg e n = Some (ReadyForQuery st, b)
        \<and> w = \<lparr>toUpstream = [sb], toClient = forwardedBytes e n @ [b], received = Suc n\<rparr>)
   \<and> (\<exists>err. relayStartup e = Some (Some err, w)) =
     (startupSent e = None \<and> w = \<lparr>toUpstream = [], toClient = [], received = 0\<rparr>
      \<or> (\<exists>sb n. startupSent e = Some sb \<and> relayed e n \<and> forwardedMsg e n = None
            \<and> w = \<lparr>toUpstream = [sb], toClient = forwardedBytes e n,
                    received = (case recvUpstream e n of Inl err \<Rightarrow> n | Inr msg \<Rightarrow> Suc n)\<rparr>)
      \<or> (\<exists>sb n body b. startupSent e = Some sb \<and> relayed e n
            \<and> forwardedMsg e n = Some (ErrorResponse body, b)
            \<and> w = \<lparr>toUpstream = [sb], toClient = forwardedBytes e n @ [b], received = Suc n\<rparr>))
   \<and> (relayStartup e = None) = (startupSent e \<noteq> None \<and> (\<forall>n. relayed e n))"
proof -
  let ?A = "\<lambda>w. \<exists>sb n st b. startupSent e = Some sb \<and> relayed e n
        \<and> forwardedMsg e n = Some (ReadyForQuery st, b)
        \<and> w = \<lparr>toUpstream = [sb], toClient = forwardedBytes e n @ [b], received = Suc n\<rparr>"
  let ?B = "\<lambda>w. startupSent e = None \<and> w = \<lparr>toUpstream = [], toClient = [], received = 0\<rparr>
      \<or> (\<exists>sb n. startupSent e = Some sb \<and> relayed e n \<and> forwardedMsg e n = None
            \<and> w = \<lparr>toUpstream = [sb], toClient = forwardedBytes e n,
                    received = (case recvUpstream e n of Inl err \<Rightarrow> n | Inr msg \<Rightarrow> Suc n)\<rparr>)
      \<or> (\<exists>sb n body b. startupSent e = Some sb \<and> relayed e n
            \<and> forwardedMsg e n = Some (ErrorResponse body, b)
            \<and> w = \<lparr>toUpstream = [sb], toClient = forwardedBytes e n @ [b], received = Suc n\<rparr>)"
  let ?D = "startupSent e \<noteq> None \<and> (\<forall>n. relayed e n)"
  have a: "relayStartup e = Some (None, w)" if "?A w" for w
    using that relayStartup_ready by blast
  have b: "\<exists>err. relayStartup e = Some (Some err, w)" if "?B w" for w
    using that relayStartup_not_sent relayStartup_io_error relayStartup_error_response by blast
  have d: "relayStartup e = None" if "?D"
    using that relayStartup_forever by blast
  have some: "(\<exists>w. ?A w) \<or> (\<exists>w. ?B w) \<or> ?D"
    using relayStartup_cases [of e] by blast
  have 1: "(relayStartup e = Some (None, w)) = ?A w"
  proof
    assume l: "relayStartup e = Some (None, w)"
    from some consider w' where "?A w'" | w' where "?B w'" | "?D" by blast
    then show "?A w"
    proof cases
      case 1
      with a [of w'] l have "w' = w" by simp
      with 1 show ?thesis by simp
    next
      case 2
      with b [of w'] l show ?thesis by auto
    next
      case 3
      with d l show ?thesis by simp
    qed
  qed (rule a)
  have 2: "(\<exists>err. relayStartup e = Some (Some err, w)) = ?B w"
  proof
    assume "\<exists>err. relayStartup e = Some (Some err, w)"
    then obtain err where l: "relayStartup e = Some (Some err, w)" by blast
    from some consider w' where "?A w'" | w' where "?B w'" | "?D" by blast
    then show "?B w"
    proof cases
      case 1
      with a [of w'] l show ?thesis by simp
    next
      case 2
      with b [of w'] l have "w' = w" by auto
      with 2 show ?thesis by simp
    next
      case 3
      with d l show ?thesis by simp
    qed
  qed (rule b)
  have 3: "(relayStartup e = None) = ?D"
  proof
    assume l: "relayStartup e = None"
    from some consider w' where "?A w'" | w' where "?B w'" | "?D" by blast
    then show "?D"
    proof cases
      case 1
      with a [of w'] l show ?thesis by simp
    next
      case 2
      with b [of w'] l show ?thesis by auto
    next
      case 3
      then show ?thesis .
    qed
  qed (rule d)
  from 1 2 3 show ?thesis by (rule conjI [OF _ conjI])
qed

text \<open>
  Two runs: an authentication message followed by ReadyForQuery, and one followed by an
  ErrorResponse.
\<close>

theorem relayStartup_outcome_witness:
  "relayStartup (exampleEnv (ReadyForQuery 0x49)) =
     Some (None, \<lparr>toUpstream = [[0, 3, 0, 0]], toClient = [[0x52, 0], [0x5A, 0x49]], received = 2\<rparr>)
   \<and> (\<exists>err. relayStartup (exampleEnv (ErrorResponse [0x53])) =
     Some (Some err, \<lparr>toUpstream = [[0, 3, 0, 0]], toClient = [[0x52, 0], [0x45, 0x53]], received = 2\<rparr>))"
proof
  let ?e = "exampleEnv (ReadyForQuery 0x49)"
  have s: "startupSent ?e = Some [0, 3, 0, 0]" by (simp add: startupSent_def exampleEnv_def)
  have r: "relayed ?e (Suc 0)"
    by (simp add: relayed_def passedOn_def forwardedMsg_def exampleEnv_def)
  have f: "forwardedMsg ?e (Suc 0) = Some (ReadyForQuery 0x49, [0x5A, 0x49])"
    by (simp add: forwardedMsg_def exampleEnv_def)
  have b: "forwardedBytes ?e (Suc 0) = [[0x52, 0]]"
    by (simp add: forwardedBytes_def forwardedMsg_def exampleEnv_def)
  have "\<exists>sb n st b. startupSent ?e = Some sb \<and> relayed ?e n
        \<and> forwardedMsg ?e n = Some (ReadyForQuery st, b)
        \<and> \<lparr>toUpstream = [[0, 3, 0, 0]], toClient = [[0x52, 0], [0x5A, 0x49]], received = 2\<rparr>
          = \<lparr>toUpstream = [sb], toClient = forwardedBytes ?e n @ [b], received = Suc n\<rparr>"
    using s r f b by (intro exI [of _ "[0, 3, 0, 0]"] exI [of _ "Suc 0"] exI [of _ "0x49"] exI [of _ "[0x5A, 0x49]"]) simp
  then show "relayStartup ?e =
      Some (None, \<lparr>toUpstream = [[0, 3, 0, 0]], toClient = [[0x52, 0], [0x5A, 0x49]], received = 2\<rparr>)"
    using relayStartup_outcome [of ?e "\<lparr>toUpstream = [[0, 3, 0, 0]], toClient = [[0x52, 0], [0x5A, 0x49]], received = 2\<rparr>"]
    by blast
next
  let ?e = "exampleEnv (ErrorResponse [0x53])"
  have s: "startupSent ?e = Some [0, 3, 0, 0]" by (simp add: startupSent_def exampleEnv_def)
  have r: "relayed ?e (Suc 0)"
    by (simp add: relayed_def passedOn_def forwardedMsg_def exampleEnv_def)
  have f: "forwardedMsg ?e (Suc 0) = Some (ErrorResponse [0x53], [0x45, 0x53])"
    by (simp add: forwardedMsg_def exampleEnv_def)
  have b: "forwardedBytes ?e (Suc 0) = [[0x52, 0]]"
    by (simp add: forwardedBytes_def forwardedMsg_def exampleEnv_def)
  have "\<exists>sb n body b. startupSent ?e = Some sb \<and> relayed ?e n
        \<and> forwardedMsg ?e n = Some (ErrorResponse body, b)
        \<and> \<lparr>toUpstream = [[0, 3, 0, 0]], toClient = [[0x52, 0], [0x45, 0x53]], received = 2\<rparr>
          = \<lparr>toUpstream = [sb], toClient = forwardedBytes ?e n @ [b], received = Suc n\<rparr>"
    using s r f b by (intro exI [of _ "[0, 3, 0, 0]"] exI [of _ "Suc 0"] exI [of _ "[0x53]"] exI [of _ "[0x45, 0x53]"]) simp
  then show "\<exists>err. relayStartup ?e =
      Some (Some err, \<lparr>toUpstream = [[0, 3, 0, 0]], toClient = [[0x52, 0], [0x45, 0x53]], received = 2\<rparr>)"
    using relayStartup_outcome [of ?e "\<lparr>toUpstream = [[0, 3, 0, 0]], toClient = [[0x52, 0], [0x45, 0x53]], received = 2\<rparr>"]
    by blast
qed

end
